theory Spec2Isabelle
  imports Main
begin

section \<open>Text: Python \<open>str\<close> operations used by the converter\<close>

text \<open>
  The converter works on Python \<open>str\<close> values read from Kotlin sources. A text is
  modelled as a \<open>string\<close> whose characters are the code points below 256 (ASCII and
  Latin-1); one \<open>char\<close> is one code point. The character classes below are the ones
  Python's \<open>re\<close> module and \<open>str\<close> methods use on that range.
\<close>

definition NL :: char where
  "NL = CHR 0x0A"

definition DQ :: char where
  "DQ = CHR 0x22"

definition code :: "char \<Rightarrow> nat" where
  "code c = of_char c"

text \<open>\<open>str.isspace\<close>, the class \<open>\s\<close> and what \<open>str.strip()\<close> removes.\<close>

definition is_space :: "char \<Rightarrow> bool" where
  "is_space c = (let n = code c in
     (9 \<le> n \<and> n \<le> 13) \<or> (28 \<le> n \<and> n \<le> 32) \<or> n = 133 \<or> n = 160)"

text \<open>The class \<open>\w\<close>: alphanumeric code points and the underscore.\<close>

definition is_word :: "char \<Rightarrow> bool" where
  "is_word c = (let n = code c in
     (48 \<le> n \<and> n \<le> 57) \<or> (65 \<le> n \<and> n \<le> 90) \<or> n = 95 \<or> (97 \<le> n \<and> n \<le> 122)
     \<or> n = 170 \<or> n = 178 \<or> n = 179 \<or> n = 181 \<or> n = 185 \<or> n = 186
     \<or> (188 \<le> n \<and> n \<le> 190) \<or> (192 \<le> n \<and> n \<le> 214) \<or> (216 \<le> n \<and> n \<le> 246)
     \<or> 248 \<le> n)"

text \<open>The class \<open>.\<close> (no DOTALL flag): anything but a newline.\<close>

definition dot :: "char \<Rightarrow> bool" where
  "dot c = (c \<noteq> NL)"

text \<open>
  \<open>str.lower()\<close> on one code point below 256: the letters A to Z and the Latin-1
  capitals (code points 192 to 222 without the multiplication sign 215) map to the code
  point 32 above, every other code point to itself.
\<close>

definition UPPERCASE :: string where
  "UPPERCASE = ''ABCDEFGHIJKLMNOPQRSTUVWXYZ'' @
       [CHR 0xC0, CHR 0xC1, CHR 0xC2, CHR 0xC3, CHR 0xC4, CHR 0xC5, CHR 0xC6, CHR 0xC7, CHR
        0xC8, CHR 0xC9, CHR 0xCA, CHR 0xCB, CHR 0xCC, CHR 0xCD, CHR 0xCE, CHR 0xCF, CHR
        0xD0, CHR 0xD1, CHR 0xD2, CHR 0xD3, CHR 0xD4, CHR 0xD5, CHR 0xD6, CHR 0xD8, CHR
        0xD9, CHR 0xDA, CHR 0xDB, CHR 0xDC, CHR 0xDD, CHR 0xDE]"

definition LOWERCASE :: string where
  "LOWERCASE = ''abcdefghijklmnopqrstuvwxyz'' @
       [CHR 0xE0, CHR 0xE1, CHR 0xE2, CHR 0xE3, CHR 0xE4, CHR 0xE5, CHR 0xE6, CHR 0xE7, CHR
        0xE8, CHR 0xE9, CHR 0xEA, CHR 0xEB, CHR 0xEC, CHR 0xED, CHR 0xEE, CHR 0xEF, CHR
        0xF0, CHR 0xF1, CHR 0xF2, CHR 0xF3, CHR 0xF4, CHR 0xF5, CHR 0xF6, CHR 0xF8, CHR
        0xF9, CHR 0xFA, CHR 0xFB, CHR 0xFC, CHR 0xFD, CHR 0xFE]"

definition lower_char :: "char \<Rightarrow> char" where
  "lower_char c = (case map_of (zip UPPERCASE LOWERCASE) c of Some l \<Rightarrow> l | None \<Rightarrow> c)"

definition lower :: "string \<Rightarrow> string" where
  "lower s = map lower_char s"

text \<open>\<open>needle in hay\<close> on strings.\<close>

fun starts_with :: "string \<Rightarrow> string \<Rightarrow> bool" where
  "starts_with [] s = True"
| "starts_with (p # ps) [] = False"
| "starts_with (p # ps) (x # xs) = (if p = x then starts_with ps xs else False)"

fun contains :: "string \<Rightarrow> string \<Rightarrow> bool" where
  "contains needle [] = starts_with needle []"
| "contains needle (x # xs) = (if starts_with needle (x # xs) then True else contains needle xs)"

text \<open>\<open>s.strip()\<close>.\<close>

definition strip :: "string \<Rightarrow> string" where
  "strip s = rev (dropWhile is_space (rev (dropWhile is_space s)))"

text \<open>\<open>s.split('\n')\<close> and \<open>'\n'.join(xs)\<close>.\<close>

fun split_on :: "char \<Rightarrow> string \<Rightarrow> string list" where
  "split_on d [] = [[]]"
| "split_on d (x # xs) =
     (if x = d then [] # split_on d xs
      else (case split_on d xs of
              [] \<Rightarrow> [[x]]
            | l # ls \<Rightarrow> (x # l) # ls))"

fun join_with :: "char \<Rightarrow> string list \<Rightarrow> string" where
  "join_with d [] = []"
| "join_with d [l] = l"
| "join_with d (l # ls) = l @ d # join_with d ls"

text \<open>
  \<open>s.split(d, 1)\<close> and \<open>s.rsplit(d, 1)\<close>: the text before and the text after the
  first, respectively the last, \<open>d\<close>; a one-element list when \<open>s\<close> has no \<open>d\<close>.
\<close>

definition split_once :: "char \<Rightarrow> string \<Rightarrow> string list" where
  "split_once d s =
     (if d \<in> set s then [takeWhile (\<lambda>c. c \<noteq> d) s, drop 1 (dropWhile (\<lambda>c. c \<noteq> d) s)]
      else [s])"

definition rsplit_once :: "char \<Rightarrow> string \<Rightarrow> string list" where
  "rsplit_once d s =
     (if d \<in> set s then
        [rev (drop 1 (dropWhile (\<lambda>c. c \<noteq> d) (rev s))), rev (takeWhile (\<lambda>c. c \<noteq> d) (rev s))]
      else [s])"

section \<open>Regular expressions: the fragment of Python's \<open>re\<close> the converter uses\<close>

text \<open>
  Patterns are kept as syntax trees and run by a backtracking matcher with Python's
  priorities: a repetition is greedy and gives characters back one at a time, an
  alternation tries its left branch first. Every repetition in the converter's patterns
  is over a single character class, so \<open>Star\<close> and \<open>Plus\<close> take a class.
\<close>

datatype rx =
    Lit string
  | Cls "char \<Rightarrow> bool"
  | Star "char \<Rightarrow> bool"
  | Plus "char \<Rightarrow> bool"
  | Seq rx rx
  | Alt rx rx
  | Grp nat rx

type_synonym caps = "(nat \<times> string) list"

text \<open>
  Literal comparison; under \<open>re.IGNORECASE\<close> (\<open>ic\<close>) letters match in either case.
  The only class the converter uses under that flag is \<open>.\<close>, which the flag leaves alone.
\<close>

fun lit_match :: "bool \<Rightarrow> string \<Rightarrow> string \<Rightarrow> bool" where
  "lit_match ic [] s = True"
| "lit_match ic (p # ps) [] = False"
| "lit_match ic (p # ps) (x # xs) =
     (if p = x then lit_match ic ps xs
      else if ic then (if lower_char p = lower_char x then lit_match ic ps xs else False)
      else False)"

text \<open>Greedy repetition of a class, then the continuation; backtracks from the longest run.\<close>

fun greedy :: "(char \<Rightarrow> bool) \<Rightarrow> string \<Rightarrow> (string \<Rightarrow> 'a option) \<Rightarrow> 'a option" where
  "greedy P [] k = k []"
| "greedy P (x # xs) k =
     (if P x then (case greedy P xs k of Some r \<Rightarrow> Some r | None \<Rightarrow> k (x # xs))
      else k (x # xs))"

primrec rx_match ::
  "rx \<Rightarrow> bool \<Rightarrow> string \<Rightarrow> caps \<Rightarrow> (string \<Rightarrow> caps \<Rightarrow> 'a option) \<Rightarrow> 'a option" where
  "rx_match (Lit l) = (\<lambda>ic s c k.
     if lit_match ic l s then k (drop (length l) s) c else None)"
| "rx_match (Cls P) = (\<lambda>ic s c k.
     case s of [] \<Rightarrow> None | x # xs \<Rightarrow> if P x then k xs c else None)"
| "rx_match (Star P) = (\<lambda>ic s c k. greedy P s (\<lambda>t. k t c))"
| "rx_match (Plus P) = (\<lambda>ic s c k.
     case s of [] \<Rightarrow> None | x # xs \<Rightarrow> if P x then greedy P xs (\<lambda>t. k t c) else None)"
| "rx_match (Seq a b) = (\<lambda>ic s c k.
     rx_match a ic s c (\<lambda>t c'. rx_match b ic t c' k))"
| "rx_match (Alt a b) = (\<lambda>ic s c k.
     case rx_match a ic s c k of Some r \<Rightarrow> Some r | None \<Rightarrow> rx_match b ic s c k)"
| "rx_match (Grp n a) = (\<lambda>ic s c k.
     rx_match a ic s c (\<lambda>t c'. k t ((n, take (length s - length t) s) # c')))"

fun seqs :: "rx list \<Rightarrow> rx" where
  "seqs [] = Lit []"
| "seqs [r] = r"
| "seqs (r # rs) = Seq r (seqs rs)"

text \<open>
  A match: where it starts, the matched text (group 0), the numbered groups and the
  text after the match.
\<close>

record rmatch =
  m_start :: nat
  m_text :: string
  m_groups :: caps
  m_rest :: string

definition match_at :: "bool \<Rightarrow> rx \<Rightarrow> string \<Rightarrow> (string \<times> caps) option" where
  "match_at ic r s = rx_match r ic s [] (\<lambda>t c. Some (t, c))"

definition group :: "rmatch \<Rightarrow> nat \<Rightarrow> string" where
  "group m n = (case map_of (m_groups m) n of Some g \<Rightarrow> g | None \<Rightarrow> [])"

text \<open>\<open>re.search\<close>: the match at the leftmost position that has one.\<close>

fun search_from :: "bool \<Rightarrow> rx \<Rightarrow> nat \<Rightarrow> string \<Rightarrow> rmatch option" where
  "search_from ic r i s =
     (case match_at ic r s of
        Some (t, c) \<Rightarrow>
          Some \<lparr>m_start = i, m_text = take (length s - length t) s, m_groups = c, m_rest = t\<rparr>
      | None \<Rightarrow> (case s of [] \<Rightarrow> None | x # xs \<Rightarrow> search_from ic r (Suc i) xs))"

definition re_search :: "rx \<Rightarrow> string \<Rightarrow> rmatch option" where
  "re_search r s = search_from False r 0 s"

definition re_search_icase :: "rx \<Rightarrow> string \<Rightarrow> rmatch option" where
  "re_search_icase r s = search_from True r 0 s"

text \<open>
  \<open>re.search('^' + r, s, re.MULTILINE)\<close>: as \<open>re.search\<close>, but a match may only start
  at the beginning of the text or right after a newline.
\<close>

fun search_bol :: "rx \<Rightarrow> nat \<Rightarrow> bool \<Rightarrow> string \<Rightarrow> nat option" where
  "search_bol r i bol s =
     (if bol \<and> match_at False r s \<noteq> None then Some i
      else (case s of [] \<Rightarrow> None | x # xs \<Rightarrow> search_bol r (Suc i) (x = NL) xs))"

definition re_search_multiline_start :: "rx \<Rightarrow> string \<Rightarrow> nat option" where
  "re_search_multiline_start r s = search_bol r 0 True s"

text \<open>
  \<open>re.sub(r, f, s)\<close> with a replacement function: matches are found left to right
  and do not overlap; \<open>f\<close> receives the matched text and the caller's state, and an
  exception it raises ends the substitution. \<open>skip\<close> counts the characters of the
  current match still to be passed over.
\<close>

datatype error = IndexError | ReadError | WriteError

fun re_sub_fn ::
  "rx \<Rightarrow> (string \<Rightarrow> 's \<Rightarrow> error + string \<times> 's) \<Rightarrow> nat \<Rightarrow> string \<Rightarrow> 's \<Rightarrow> error + string \<times> 's"
  where
  "re_sub_fn r f skip [] st =
     (if skip = 0 \<and> match_at False r [] \<noteq> None then f [] st else Inr ([], st))"
| "re_sub_fn r f (Suc k) (x # xs) st = re_sub_fn r f k xs st"
| "re_sub_fn r f 0 (x # xs) st =
     (case match_at False r (x # xs) of
        None \<Rightarrow>
          (case re_sub_fn r f 0 xs st of
             Inl e \<Rightarrow> Inl e
           | Inr (out, st') \<Rightarrow> Inr (x # out, st'))
      | Some (t, c) \<Rightarrow>
          (let n = length (x # xs) - length t in
           case f (take n (x # xs)) st of
             Inl e \<Rightarrow> Inl e
           | Inr (rep, st') \<Rightarrow>
               if n = 0 then
                 (case re_sub_fn r f 0 xs st' of
                    Inl e \<Rightarrow> Inl e
                  | Inr (out, st'') \<Rightarrow> Inr (rep @ x # out, st''))
               else
                 (case re_sub_fn r f (n - 1) xs st' of
                    Inl e \<Rightarrow> Inl e
                  | Inr (out, st'') \<Rightarrow> Inr (rep @ out, st''))))"

text \<open>\<open>re.sub(lit, '', s)\<close> for a non-empty literal pattern: every occurrence is deleted.\<close>

fun delete_all :: "string \<Rightarrow> nat \<Rightarrow> string \<Rightarrow> string" where
  "delete_all lit skip [] = []"
| "delete_all lit (Suc k) (x # xs) = delete_all lit k xs"
| "delete_all lit 0 (x # xs) =
     (if starts_with lit (x # xs) then delete_all lit (length lit - 1) xs
      else x # delete_all lit 0 xs)"

section \<open>The converter\<close>

subsection \<open>Patterns\<close>

definition not_rparen :: "char \<Rightarrow> bool" where
  "not_rparen c = (c \<noteq> CHR '')'')"

definition not_dquote :: "char \<Rightarrow> bool" where
  "not_dquote c = (c \<noteq> DQ)"

definition not_lbrace :: "char \<Rightarrow> bool" where
  "not_lbrace c = (c \<noteq> CHR ''{'')"

text \<open>The class \<open>[deiwv]\<close>.\<close>

definition level_letter :: "char \<Rightarrow> bool" where
  "level_letter c = (c \<in> set ''deiwv'')"

text \<open>The module constant \<open>UNNECESSARY_PATTERNS\<close>, in the source's order.\<close>

definition UNNECESSARY_PATTERNS :: "rx list" where
  "UNNECESSARY_PATTERNS =
    [ seqs [Lit ''============'', Star dot, Lit ''============''],
      Lit ''[DEBUG]'',
      Lit ''println'',
      Lit ''Log.v('',
      Alt (Lit ''TODO'') (Lit ''FIXME''),
      Alt (Lit ''Testing'') (Lit ''Debugging''),
      Lit ''All keys in'',
      Lit ''Inclusion states JSON'' ]"

text \<open>\<open>class\s+(\w+)\<close>\<close>

definition class_name_rx :: rx where
  "class_name_rx = seqs [Lit ''class'', Plus is_space, Grp 1 (Plus is_word)]"

text \<open>\<open>fun\s+(\w+)\s*\(\<close>\<close>

definition fun_decl_rx :: rx where
  "fun_decl_rx = seqs [Lit ''fun'', Plus is_space, Grp 1 (Plus is_word), Star is_space, Lit ''('']"

text \<open>\<open>Timber\.tag\([^)]+\)\.([deiwv])\((.*)\)\<close>\<close>

definition timber_rx :: rx where
  "timber_rx = seqs [Lit ''Timber.tag('', Plus not_rparen, Lit '').'', Grp 1 (Cls level_letter),
                     Lit ''('', Grp 2 (Star dot), Lit '')'']"

text \<open>\<open>Log\.([deiwv])\("([^"]+)",\s*(.*)\)\<close>\<close>

definition log_rx :: rx where
  "log_rx = seqs [Lit ''Log.'', Grp 1 (Cls level_letter), Lit [CHR ''('', DQ],
                  Grp 2 (Plus not_dquote), Lit [DQ, CHR '',''], Star is_space,
                  Grp 3 (Star dot), Lit '')'']"

text \<open>\<open>Log\.[deiwv]\(\<close>\<close>

definition log_marker_rx :: rx where
  "log_marker_rx = seqs [Lit ''Log.'', Cls level_letter, Lit ''('']"

text \<open>\<open>(Timber\.tag\([^)]+\)\.[deiwv]\([^)]*\)|Log\.[deiwv]\([^)]*\))\<close>\<close>

definition call_rx :: rx where
  "call_rx = Grp 1 (Alt
     (seqs [Lit ''Timber.tag('', Plus not_rparen, Lit '').'', Cls level_letter, Lit ''('',
            Star not_rparen, Lit '')''])
     (seqs [Lit ''Log.'', Cls level_letter, Lit ''('', Star not_rparen, Lit '')'']))"

text \<open>\<open>class\s+\w+[^{]*\{\<close>\<close>

definition class_body_rx :: rx where
  "class_body_rx = seqs [Lit ''class'', Plus is_space, Plus is_word, Star not_lbrace, Lit ''{'']"

text \<open>The body of \<open>^import \<close> (the anchor is in \<^const>\<open>re_search_multiline_start\<close>).\<close>

definition import_rx :: rx where
  "import_rx = Lit ''import ''"

definition TIMBER_IMPORT_LINE :: string where
  "TIMBER_IMPORT_LINE = ''import timber.log.Timber'' @ [NL]"

definition ANDROID_LOG_IMPORT_LINE :: string where
  "ANDROID_LOG_IMPORT_LINE = ''import android.util.Log'' @ [NL]"

definition STRUCTURED_IMPORT :: string where
  "STRUCTURED_IMPORT = ''import com.expensemanager.app.utils.logging.StructuredLogger''"

definition LOGGER_FIELD :: string where
  "LOGGER_FIELD = ''private val logger = StructuredLogger''"

definition LOGGER_FIELD_TYPED :: string where
  "LOGGER_FIELD_TYPED = ''private val logger:''"

subsection \<open>The \<open>LogConverter\<close> object\<close>

text \<open>
  An entry of \<open>changes_made\<close>. The source formats each as a line of text:
  \<open>Removed n\<close> is "Line n: REMOVED unnecessary log", \<open>Converted n src l m\<close> is
  "Line n: Converted src.l() to logger.m()" with \<open>src\<close> Timber or Log, and
  \<open>AddedLogger c\<close> is "Added logger instance to c".
\<close>

datatype change =
    Removed int
  | Converted int string char string
  | AddedLogger string

record converter =
  file_path :: string
  content :: string
  class_name :: string
  feature_tag :: string
  changes_made :: "change list"

text \<open>\<open>LogConverter.__init__\<close>\<close>

definition LogConverter :: "string \<Rightarrow> converter" where
  "LogConverter p =
     \<lparr>file_path = p, content = [], class_name = [], feature_tag = [], changes_made = []\<rparr>"

text \<open>
  \<open>Path(p).stem\<close> for a POSIX path: the last component that is neither empty nor a
  single dot, without its last suffix; a leading or a trailing dot starts no suffix.
\<close>

definition path_name :: "string \<Rightarrow> string" where
  "path_name p =
     (case rev (filter (\<lambda>c. c \<noteq> [] \<and> c \<noteq> ''.'') (split_on (CHR ''/'') p)) of
        [] \<Rightarrow> [] | n # _ \<Rightarrow> n)"

definition path_stem :: "string \<Rightarrow> string" where
  "path_stem p =
     (let name = path_name p;
          after = takeWhile (\<lambda>c. c \<noteq> CHR ''.'') (rev name);
          i = length name - length after - 1
      in if CHR ''.'' \<in> set name \<and> 0 < i \<and> i < length name - 1 then take i name else name)"

definition extract_class_info :: "converter \<Rightarrow> converter" where
  "extract_class_info cv =
     (let cv1 = (case re_search class_name_rx (content cv) of
                   Some m \<Rightarrow> cv\<lparr>class_name := group m 1\<rparr>
                 | None \<Rightarrow> cv\<lparr>class_name := path_stem (file_path cv)\<rparr>);
          path = lower (file_path cv1)
      in if contains ''dashboard'' path then
           cv1\<lparr>feature_tag := ''LogConfig.FeatureTags.DASHBOARD''\<rparr>
         else if contains ''message'' path \<or> contains ''sms'' path then
           cv1\<lparr>feature_tag := ''LogConfig.FeatureTags.SMS''\<rparr>
         else if contains ''transaction'' path then
           cv1\<lparr>feature_tag := ''LogConfig.FeatureTags.TRANSACTION''\<rparr>
         else if contains ''categor'' path then
           cv1\<lparr>feature_tag := ''LogConfig.FeatureTags.CATEGORIES''\<rparr>
         else if contains ''merchant'' path then
           cv1\<lparr>feature_tag := ''LogConfig.FeatureTags.MERCHANT''\<rparr>
         else if contains ''insight'' path then
           cv1\<lparr>feature_tag := ''LogConfig.FeatureTags.INSIGHTS''\<rparr>
         else if contains ''database'' path \<or> contains ''dao'' path \<or> contains ''repository'' path then
           cv1\<lparr>feature_tag := ''LogConfig.FeatureTags.DATABASE''\<rparr>
         else if contains ''network'' path \<or> contains ''api'' path then
           cv1\<lparr>feature_tag := ''LogConfig.FeatureTags.NETWORK''\<rparr>
         else if contains ''migration'' path then
           cv1\<lparr>feature_tag := ''LogConfig.FeatureTags.MIGRATION''\<rparr>
         else
           cv1\<lparr>feature_tag := ''LogConfig.FeatureTags.APP''\<rparr>)"

definition should_remove_log :: "string \<Rightarrow> bool" where
  "should_remove_log log_line =
     list_ex (\<lambda>pattern. re_search_icase pattern log_line \<noteq> None) UNNECESSARY_PATTERNS"

text \<open>\<open>range(a, b, -1)\<close>: \<open>a, a - 1, ...\<close> down to \<open>b + 1\<close>.\<close>

definition range_down :: "int \<Rightarrow> int \<Rightarrow> int list" where
  "range_down a b = map (\<lambda>k. a - int k) [0..<nat (a - b)]"

text \<open>\<open>xs[i]\<close>: a negative index counts from the end, an index out of range raises.\<close>

definition py_index :: "'a list \<Rightarrow> int \<Rightarrow> error + 'a" where
  "py_index xs i =
     (if 0 \<le> i \<and> i < int (length xs) then Inr (xs ! nat i)
      else if i < 0 \<and> - int (length xs) \<le> i then Inr (xs ! nat (int (length xs) + i))
      else Inl IndexError)"

fun scan_for_method :: "string list \<Rightarrow> int list \<Rightarrow> error + string" where
  "scan_for_method lines [] = Inr ''unknown''"
| "scan_for_method lines (i # rest) =
     (case py_index lines i of
        Inl e \<Rightarrow> Inl e
      | Inr line \<Rightarrow>
          (case re_search fun_decl_rx line of
             Some m \<Rightarrow> Inr (group m 1)
           | None \<Rightarrow> scan_for_method lines rest))"

definition extract_method_name :: "converter \<Rightarrow> int \<Rightarrow> error + string" where
  "extract_method_name cv line_num =
     scan_for_method (split_on NL (content cv)) (range_down (line_num - 1) (max 0 (line_num - 50)))"

text \<open>The dictionary \<open>level_map\<close> with its \<open>.get(level, 'debug')\<close>.\<close>

definition level_map :: "char \<Rightarrow> string" where
  "level_map l =
     (case map_of [(CHR ''d'', ''debug''), (CHR ''e'', ''error''), (CHR ''i'', ''info''),
                   (CHR ''w'', ''warn''), (CHR ''v'', ''debug'')] l of
        Some m \<Rightarrow> m | None \<Rightarrow> ''debug'')"

text \<open>The two f-strings that build the new call.\<close>

definition call2 :: "string \<Rightarrow> string \<Rightarrow> string \<Rightarrow> string" where
  "call2 method method_name message =
     ''logger.'' @ method @ [CHR ''('', DQ] @ method_name @ [DQ] @ '', '' @ message @ '')''"

definition call3 :: "string \<Rightarrow> string \<Rightarrow> string \<Rightarrow> string \<Rightarrow> string" where
  "call3 method method_name msg exception =
     ''logger.'' @ method @ [CHR ''('', DQ] @ method_name @ [DQ] @ '', '' @ msg @ '', ''
       @ exception @ '')''"

definition add_change :: "change \<Rightarrow> converter \<Rightarrow> converter" where
  "add_change ch cv = cv\<lparr>changes_made := changes_made cv @ [ch]\<rparr>"

definition convert_log_call :: "converter \<Rightarrow> string \<Rightarrow> int \<Rightarrow> error + string \<times> converter" where
  "convert_log_call cv full_match line_num =
     (if should_remove_log full_match then
        Inr ([], add_change (Removed line_num) cv)
      else
        (case re_search timber_rx full_match of
           Some timber_match \<Rightarrow>
             (let level = hd (group timber_match 1);
                  message = group timber_match 2
              in case extract_method_name cv line_num of
                   Inl e \<Rightarrow> Inl e
                 | Inr method_name \<Rightarrow>
                     (let method = level_map level;
                          converted =
                            (if method = ''error'' \<and> CHR '','' \<in> set message then
                               (let parts = split_once (CHR '','') message;
                                    exception = strip (parts ! 0);
                                    msg = (if length parts > 1 then strip (parts ! 1)
                                           else [DQ, DQ])
                                in call3 method method_name msg exception)
                             else call2 method method_name message)
                      in Inr (converted,
                              add_change (Converted line_num ''Timber'' level method) cv)))
         | None \<Rightarrow>
             (case re_search log_rx full_match of
                Some log_match \<Rightarrow>
                  (let level = hd (group log_match 1);
                       message = group log_match 3
                   in case extract_method_name cv line_num of
                        Inl e \<Rightarrow> Inl e
                      | Inr method_name \<Rightarrow>
                          (let method = level_map level;
                               converted =
                                 (if method = ''error'' \<and> CHR '','' \<in> set message then
                                    (let parts = rsplit_once (CHR '','') message;
                                         msg = strip (parts ! 0);
                                         exception = strip (parts ! 1)
                                     in call3 method method_name msg exception)
                                  else call2 method method_name message)
                           in Inr (converted,
                                   add_change (Converted line_num ''Log'' level method) cv)))
              | None \<Rightarrow> Inr (full_match, cv))))"

text \<open>The test that sends a line to the substitution.\<close>

definition has_log_call :: "string \<Rightarrow> bool" where
  "has_log_call line = (contains ''Timber.tag'' line \<or> re_search log_marker_rx line \<noteq> None)"

text \<open>
  The loop of \<open>process_content\<close> over \<open>enumerate(lines, 1)\<close>. It reads
  \<open>self.content\<close> (still the original text) through \<open>extract_method_name\<close> and
  appends to \<open>self.changes_made\<close>; the new lines are returned.
\<close>

fun process_lines :: "converter \<Rightarrow> int \<Rightarrow> string list \<Rightarrow> error + string list \<times> converter" where
  "process_lines cv line_num [] = Inr ([], cv)"
| "process_lines cv line_num (line # rest) =
     (if has_log_call line then
        (case re_sub_fn call_rx (\<lambda>m st. convert_log_call st m line_num) 0 line cv of
           Inl e \<Rightarrow> Inl e
         | Inr (new_line, cv1) \<Rightarrow>
             (case process_lines cv1 (line_num + 1) rest of
                Inl e \<Rightarrow> Inl e
              | Inr (new_lines, cv2) \<Rightarrow>
                  if strip new_line \<noteq> [] then Inr (new_line # new_lines, cv2)
                  else Inr (new_lines, cv2)))
      else
        (case process_lines cv (line_num + 1) rest of
           Inl e \<Rightarrow> Inl e
         | Inr (new_lines, cv2) \<Rightarrow> Inr (line # new_lines, cv2)))"

definition process_content :: "converter \<Rightarrow> error + converter" where
  "process_content cv =
     (case process_lines cv 1 (split_on NL (content cv)) of
        Inl e \<Rightarrow> Inl e
      | Inr (new_lines, cv1) \<Rightarrow> Inr (cv1\<lparr>content := join_with NL new_lines\<rparr>))"

definition update_imports :: "converter \<Rightarrow> converter" where
  "update_imports cv =
     (let c1 = delete_all TIMBER_IMPORT_LINE 0 (content cv);
          c2 = delete_all ANDROID_LOG_IMPORT_LINE 0 c1
      in if \<not> contains STRUCTURED_IMPORT c2 then
           (case re_search_multiline_start import_rx c2 of
              Some pos \<Rightarrow> cv\<lparr>content := take pos c2 @ STRUCTURED_IMPORT @ [NL] @ drop pos c2\<rparr>
            | None \<Rightarrow> cv\<lparr>content := c2\<rparr>)
         else cv\<lparr>content := c2\<rparr>)"

text \<open>The f-string \<open>logger_code\<close>.\<close>

definition logger_code :: "string \<Rightarrow> string \<Rightarrow> string" where
  "logger_code tag cls =
     [NL] @ ''    private val logger = StructuredLogger('' @ tag @ '', '' @ [DQ] @ cls @ [DQ]
       @ '')'' @ [NL]"

definition add_logger_instance :: "converter \<Rightarrow> converter" where
  "add_logger_instance cv =
     (if contains LOGGER_FIELD (content cv) \<or> contains LOGGER_FIELD_TYPED (content cv) then cv
      else
        (case re_search class_body_rx (content cv) of
           None \<Rightarrow> cv
         | Some class_match \<Rightarrow>
             (let insert_pos = m_start class_match + length (m_text class_match);
                  code = logger_code (feature_tag cv) (class_name cv)
              in add_change (AddedLogger (class_name cv))
                   (cv\<lparr>content := take insert_pos (content cv) @ code
                                       @ drop insert_pos (content cv)\<rparr>))))"

subsection \<open>Files and the conversion of one file\<close>

text \<open>
  What the program prints: the error line of \<open>convert\<close>, and for a converted file its
  path and its changes.
\<close>

datatype printed =
    ErrorProcessing string error
  | ConvertedFile string
  | ChangeLine change

text \<open>
  The world outside the converter: the text of every file that can be opened and decoded
  (\<open>None\<close>: reading raises), the paths that cannot be opened for writing (writing raises
  and leaves the file as it was), and the lines printed so far.
\<close>

record world =
  files :: "string \<Rightarrow> string option"
  write_fails :: "string \<Rightarrow> bool"
  stdout :: "printed list"

definition read_file :: "world \<Rightarrow> converter \<Rightarrow> error + converter" where
  "read_file w cv =
     (case files w (file_path cv) of
        None \<Rightarrow> Inl ReadError
      | Some text \<Rightarrow> Inr (cv\<lparr>content := text\<rparr>))"

definition write_file :: "world \<Rightarrow> converter \<Rightarrow> error + world" where
  "write_file w cv =
     (if write_fails w (file_path cv) then Inl WriteError
      else Inr (w\<lparr>files := (files w)(file_path cv \<mapsto> content cv)\<rparr>))"

text \<open>
  The \<open>try\<close> block of \<open>convert\<close>. An exception leaves with the error and the object as
  it was when the failing method was called.
\<close>

definition convert_try :: "world \<Rightarrow> converter \<Rightarrow> error \<times> converter + bool \<times> converter \<times> world" where
  "convert_try w cv =
     (case read_file w cv of
        Inl e \<Rightarrow> Inl (e, cv)
      | Inr cv1 \<Rightarrow>
          if contains LOGGER_FIELD (content cv1) then Inr (False, cv1, w)
          else if \<not> contains ''Timber'' (content cv1) \<and> \<not> contains ''Log.d'' (content cv1)
                  \<and> \<not> contains ''Log.e'' (content cv1) then Inr (False, cv1, w)
          else
            (let cv2 = extract_class_info cv1 in
             case process_content cv2 of
               Inl e \<Rightarrow> Inl (e, cv2)
             | Inr cv3 \<Rightarrow>
                 (let cv4 = update_imports cv3;
                      cv5 = add_logger_instance cv4
                  in case write_file w cv5 of
                       Inl e \<Rightarrow> Inl (e, cv5)
                     | Inr w1 \<Rightarrow> Inr (True, cv5, w1))))"

text \<open>\<open>convert\<close>: the \<open>except Exception\<close> clause prints the error and returns False.\<close>

definition convert :: "world \<Rightarrow> converter \<Rightarrow> bool \<times> converter \<times> world" where
  "convert w cv =
     (case convert_try w cv of
        Inl (e, cv1) \<Rightarrow>
          (False, cv1, w\<lparr>stdout := stdout w @ [ErrorProcessing (file_path cv) e]\<rparr>)
      | Inr r \<Rightarrow> r)"

text \<open>
  The loop of \<open>main\<close> over the files found, with its two counters. A converted file is
  printed with its changes.
\<close>

fun main_loop :: "world \<Rightarrow> string list \<Rightarrow> nat \<Rightarrow> nat \<Rightarrow> nat \<times> nat \<times> world" where
  "main_loop w [] converted_count skipped_count = (converted_count, skipped_count, w)"
| "main_loop w (p # ps) converted_count skipped_count =
     (case convert w (LogConverter p) of
        (ok, converter, w1) \<Rightarrow>
          if ok then
            main_loop
              (w1\<lparr>stdout := stdout w1 @ ConvertedFile p # map ChangeLine (changes_made converter)\<rparr>)
              ps (converted_count + 1) skipped_count
          else main_loop w1 ps converted_count (skipped_count + 1))"

section \<open>Definitions that follow the specification's words\<close>

text \<open>
  The classification as the specification describes it: a fixed priority list of
  (substrings, label), the first entry with a substring in the lower-cased path wins,
  and the default is APP.
\<close>

definition PRIORITY_ORDER :: "(string list \<times> string) list" where
  "PRIORITY_ORDER =
    [ ([''dashboard''], ''LogConfig.FeatureTags.DASHBOARD''),
      ([''message'', ''sms''], ''LogConfig.FeatureTags.SMS''),
      ([''transaction''], ''LogConfig.FeatureTags.TRANSACTION''),
      ([''categor''], ''LogConfig.FeatureTags.CATEGORIES''),
      ([''merchant''], ''LogConfig.FeatureTags.MERCHANT''),
      ([''insight''], ''LogConfig.FeatureTags.INSIGHTS''),
      ([''database'', ''dao'', ''repository''], ''LogConfig.FeatureTags.DATABASE''),
      ([''network'', ''api''], ''LogConfig.FeatureTags.NETWORK''),
      ([''migration''], ''LogConfig.FeatureTags.MIGRATION'') ]"

fun first_match_label :: "(string list \<times> string) list \<Rightarrow> string \<Rightarrow> string" where
  "first_match_label [] path = ''LogConfig.FeatureTags.APP''"
| "first_match_label ((needles, label) # rest) path =
     (if list_ex (\<lambda>n. contains n path) needles then label else first_match_label rest path)"

section \<open>Example worlds\<close>

text \<open>A world with the given files, all writable, and nothing printed yet.\<close>

definition world_of :: "(string \<times> string) list \<Rightarrow> world" where
  "world_of fs = \<lparr>files = map_of fs, write_fails = (\<lambda>p. False), stdout = []\<rparr>"

section \<open>Call shapes and an example file\<close>

text \<open>
  The text of a Form A call (bracketed tag, level letter, argument list) and of a Form B
  call (level letter, quoted tag, comma, remainder), as the line pattern hands them to
  \<open>convert_log_call\<close>.
\<close>

definition timber_call :: "string \<Rightarrow> char \<Rightarrow> string \<Rightarrow> string" where
  "timber_call tag_expr l args = ''Timber.tag('' @ tag_expr @ '').'' @ [l] @ ''('' @ args @ '')''"


text \<open>A converter whose text has the function \<open>save\<close> above a call on line 3.\<close>

definition store_cv :: converter where
  "store_cv = (LogConverter ''Store.kt'')\<lparr>content :=
     join_with NL [''class Store {'', ''  fun save() {'', ''    Timber.tag(TAG).e(exc)'', ''  }'', ''}'']\<rparr>"

section \<open>The context scan as claimed\<close>

text \<open>
  The scan as the claim words it: the lines before the call line, with the 1-based
  numbers \<open>lineNumber - 1\<close> down to \<open>max(0, lineNumber - 50)\<close> inclusive (there is no
  line 0), the first of them that matches a function declaration gives the name.
\<close>

definition claimed_window :: "int \<Rightarrow> int list" where
  "claimed_window lineNumber =
     filter (\<lambda>k. 1 \<le> k) (range_down (lineNumber - 1) (max 0 (lineNumber - 50) - 1))"

fun first_declaration :: "string list \<Rightarrow> int list \<Rightarrow> string" where
  "first_declaration lines [] = ''unknown''"
| "first_declaration lines (k # ks) =
     (if k \<le> int (length lines) then
        (case re_search fun_decl_rx (lines ! nat (k - 1)) of
           Some m \<Rightarrow> group m 1
         | None \<Rightarrow> first_declaration lines ks)
      else first_declaration lines ks)"

definition resolveContext_claimed :: "string \<Rightarrow> int \<Rightarrow> string" where
  "resolveContext_claimed fullText lineNumber =
     first_declaration (split_on NL fullText) (claimed_window lineNumber)"

text \<open>A converter whose text has a call inside a one-line function on line 3.\<close>

definition nested_cv :: converter where
  "nested_cv = (LogConverter ''Sync.kt'')\<lparr>content :=
     join_with NL [''package sync'', ''fun outer() {'', ''  fun inner() { Log.d(TAG, msg) }'', ''}'']\<rparr>"

text \<open>A converter whose text declares a function on its very first line.\<close>

definition first_line_cv :: converter where
  "first_line_cv = (LogConverter ''Top.kt'')\<lparr>content :=
     join_with NL [''fun outer() {'', ''  Log.d(TAG, msg)'', ''}'']\<rparr>"

text \<open>A converter whose text has a verbose-level call alone on line 2 and a blank line 3.\<close>

definition noisy_cv :: converter where
  "noisy_cv = (LogConverter ''Sync.kt'')\<lparr>content :=
     join_with NL [''fun sync() {'', ''    Log.v(TAG, msg)'', '''', ''}'']\<rparr>"

section \<open>Counting occurrences\<close>

text \<open>The number of places where \<open>needle\<close> occurs in a text.\<close>

fun occurrences :: "string \<Rightarrow> string \<Rightarrow> nat" where
  "occurrences needle [] = (if starts_with needle [] then 1 else 0)"
| "occurrences needle (x # xs) =
     (if starts_with needle (x # xs) then 1 else 0) + occurrences needle xs"

section \<open>Example files\<close>

text \<open>
  The scenario of the specification: class \<open>FooRepository\<close> in a path with "database",
  a debug call inside function \<open>load\<close>; and the converter object and the world that one
  run of \<open>convert\<close> is expected to leave.
\<close>

definition foo_path :: string where
  "foo_path = ''app/database/FooRepository.kt''"

definition foo_text :: string where
  "foo_text = join_with NL
     [''import android.util.Log'',
      ''import kotlin.math.max'',
      ''class FooRepository {'',
      ''    fun load() {'',
      ''        Log.d('' @ [DQ] @ ''Foo'' @ [DQ] @ '', '' @ [DQ] @ ''loaded $n items'' @ [DQ] @ '')'',
      ''    }'',
      ''}'']"

definition foo_world :: world where
  "foo_world = world_of [(foo_path, foo_text)]"

definition foo_converted :: converter where
  "foo_converted =
     \<lparr>file_path = foo_path,
      content = join_with NL
        [''import com.expensemanager.app.utils.logging.StructuredLogger'',
         ''import kotlin.math.max'',
         ''class FooRepository {'',
         ''    private val logger = StructuredLogger(LogConfig.FeatureTags.DATABASE, ''
            @ [DQ] @ ''FooRepository'' @ [DQ] @ '')'',
         '''',
         ''    fun load() {'',
         ''        logger.debug('' @ [DQ] @ ''load'' @ [DQ] @ '', '' @ [DQ] @ ''loaded $n items'' @ [DQ] @ '')'',
         ''    }'',
         ''}''],
      class_name = ''FooRepository'',
      feature_tag = ''LogConfig.FeatureTags.DATABASE'',
      changes_made = [Converted 5 ''Log'' (CHR ''d'') ''debug'', AddedLogger ''FooRepository'']\<rparr>"

definition foo_after_world :: world where
  "foo_after_world = foo_world\<lparr>files := (files foo_world)(foo_path \<mapsto> content foo_converted)\<rparr>"

text \<open>A file without a class, whose call has an unquoted tag.\<close>

definition sync_world :: world where
  "sync_world = world_of [(''Sync.kt'', ''fun sync() { Log.d(TAG, msg) }'')]"

text \<open>A file that already has the canonical import line twice.\<close>

definition dup_world :: world where
  "dup_world = world_of [(''Dup.kt'', join_with NL
     [''import com.expensemanager.app.utils.logging.StructuredLogger'',
      ''import com.expensemanager.app.utils.logging.StructuredLogger'',
      ''fun sync() { Log.d(TAG, msg) }''])]"

section \<open>Classification of a file by its path\<close>

lemma file_path_extract_class_info: "file_path (extract_class_info cv) = file_path cv"
  by (cases "re_search class_name_rx (content cv)") (simp_all add: extract_class_info_def Let_def)

lemma feature_tag_first_match:
  "feature_tag (extract_class_info cv) = first_match_label PRIORITY_ORDER (lower (file_path cv))"
  by (cases "re_search class_name_rx (content cv)")
     (simp_all add: extract_class_info_def Let_def PRIORITY_ORDER_def)

text \<open>
  Claim C8, as amended. \<open>extract_class_info\<close> assigns every file exactly one label: the
  label of the first entry of the fixed priority list that has a substring in the
  lower-cased path, APP when none has. A path that contains both "database" and
  "network" is never labelled NETWORK, and it is labelled DATABASE when it contains none
  of the substrings of the entries before DATABASE (dashboard, message, sms, transaction,
  categor, merchant, insight).
\<close>

theorem classification_first_match:
  "feature_tag (extract_class_info cv) = first_match_label PRIORITY_ORDER (lower (file_path cv))
   \<and> (contains ''database'' (lower (file_path cv)) \<and> contains ''network'' (lower (file_path cv))
      \<longrightarrow> feature_tag (extract_class_info cv) \<noteq> ''LogConfig.FeatureTags.NETWORK'')
   \<and> (contains ''database'' (lower (file_path cv)) \<and> contains ''network'' (lower (file_path cv))
      \<and> \<not> list_ex (\<lambda>n. contains n (lower (file_path cv)))
            [''dashboard'', ''message'', ''sms'', ''transaction'', ''categor'', ''merchant'', ''insight'']
      \<longrightarrow> feature_tag (extract_class_info cv) = ''LogConfig.FeatureTags.DATABASE'')"
  by (simp add: feature_tag_first_match PRIORITY_ORDER_def)

theorem classification_first_match_witness:
  "contains ''database'' (lower ''App/Database/NetworkDao.kt'')
   \<and> contains ''network'' (lower ''App/Database/NetworkDao.kt'')
   \<and> \<not> list_ex (\<lambda>n. contains n (lower ''App/Database/NetworkDao.kt''))
            [''dashboard'', ''message'', ''sms'', ''transaction'', ''categor'', ''merchant'', ''insight'']
   \<and> feature_tag (extract_class_info (LogConverter ''App/Database/NetworkDao.kt''))
       = ''LogConfig.FeatureTags.DATABASE''"
proof -
  have p: "file_path (LogConverter ''App/Database/NetworkDao.kt'') = ''App/Database/NetworkDao.kt''"
    by (simp add: LogConverter_def)
  have a: "contains ''database'' (lower ''App/Database/NetworkDao.kt'')" by code_simp
  have b: "contains ''network'' (lower ''App/Database/NetworkDao.kt'')" by code_simp
  have c: "\<not> list_ex (\<lambda>n. contains n (lower ''App/Database/NetworkDao.kt''))
            [''dashboard'', ''message'', ''sms'', ''transaction'', ''categor'', ''merchant'', ''insight'']"
    by code_simp
  from classification_first_match [of "LogConverter ''App/Database/NetworkDao.kt''"] a b c
  show ?thesis unfolding p by blast
qed

text \<open>
  Claim C8 as stated fails: this path contains both "database" and "network", and its
  label is not DATABASE, because "dashboard" comes first in the priority order.
\<close>

theorem database_and_network_counterexample:
  "contains ''database'' (lower ''dashboard/database/network.kt'')
   \<and> contains ''network'' (lower ''dashboard/database/network.kt'')
   \<and> feature_tag (extract_class_info (LogConverter ''dashboard/database/network.kt''))
       \<noteq> ''LogConfig.FeatureTags.DATABASE''"
  by code_simp

section \<open>Files that are skipped\<close>

lemma search_from_finds:
  "match_at ic r s \<noteq> None \<Longrightarrow> search_from ic r i (pre @ s) \<noteq> None"
proof (induction pre arbitrary: i)
  case Nil
  then show ?case by (auto split: option.splits)
next
  case (Cons x pre)
  show ?case
    using Cons.IH [OF Cons.prems, of "Suc i"]
    by (cases "match_at ic r (x # pre @ s)") auto
qed

lemma log_marker_matches:
  "level_letter l \<Longrightarrow> match_at False log_marker_rx (''Log.'' @ l # ''('' @ post) \<noteq> None"
  by (simp add: match_at_def log_marker_rx_def)

text \<open>
  Claim C6. A file that can be read and whose text contains none of the markers that
  \<open>convert\<close> tests ("Timber", "Log.d", "Log.e") is skipped: \<open>convert\<close> returns False,
  nothing is written and nothing is printed, so the world, and with it every file, is
  exactly as before.
\<close>

theorem untouched_without_markers:
  assumes "files w (file_path cv) = Some text"
    and "\<not> contains ''Timber'' text" and "\<not> contains ''Log.d'' text"
    and "\<not> contains ''Log.e'' text"
  shows "convert w cv = (False, cv\<lparr>content := text\<rparr>, w)"
  using assms by (simp add: convert_def convert_try_def read_file_def)

theorem untouched_without_markers_witness:
  "convert (world_of [(''Money.kt'', ''val total = a + b'')]) (LogConverter ''Money.kt'')
     = (False, (LogConverter ''Money.kt'')\<lparr>content := ''val total = a + b''\<rparr>,
        world_of [(''Money.kt'', ''val total = a + b'')])"
proof -
  have p: "file_path (LogConverter ''Money.kt'') = ''Money.kt''" by (simp add: LogConverter_def)
  have f: "files (world_of [(''Money.kt'', ''val total = a + b'')]) (file_path (LogConverter ''Money.kt''))
             = Some ''val total = a + b''"
    by (simp add: world_of_def p)
  have a: "\<not> contains ''Timber'' ''val total = a + b''" by simp
  have b: "\<not> contains ''Log.d'' ''val total = a + b''" by simp
  have c: "\<not> contains ''Log.e'' ''val total = a + b''" by simp
  show ?thesis by (rule untouched_without_markers [OF f a b c])
qed

text \<open>
  Claim C10. The skip test looks for the exact substrings "Timber", "Log.d" and "Log.e"
  only: a file with none of them is skipped and keeps its text, although every line with
  a call \<open>Log.i(\<close>, \<open>Log.w(\<close> or \<open>Log.v(\<close> is one the line transform
  recognises as a legacy call.
\<close>

theorem skipped_unless_Timber_Log_d_Log_e:
  assumes "files w (file_path cv) = Some text"
    and "\<not> contains ''Timber'' text" and "\<not> contains ''Log.d'' text"
    and "\<not> contains ''Log.e'' text"
  shows "fst (convert w cv) = False \<and> files (snd (snd (convert w cv))) = files w
         \<and> (\<forall>l pre post. l \<in> set ''iwv'' \<longrightarrow> has_log_call (pre @ ''Log.'' @ l # ''('' @ post))"
proof -
  have "convert w cv = (False, cv\<lparr>content := text\<rparr>, w)"
    using assms by (simp add: convert_def convert_try_def read_file_def)
  moreover have "has_log_call (pre @ ''Log.'' @ l # ''('' @ post)" if "l \<in> set ''iwv''" for l pre post
  proof -
    have "level_letter l" using that by (auto simp: level_letter_def)
    then show ?thesis
      unfolding has_log_call_def re_search_def
      using search_from_finds [OF log_marker_matches] by blast
  qed
  ultimately show ?thesis by simp
qed

theorem skipped_unless_Timber_Log_d_Log_e_witness:
  "fst (convert (world_of [(''Sync.kt'', ''Log.i(TAG, msg)'')]) (LogConverter ''Sync.kt'')) = False
   \<and> files (snd (snd (convert (world_of [(''Sync.kt'', ''Log.i(TAG, msg)'')]) (LogConverter ''Sync.kt''))))
        ''Sync.kt'' = Some ''Log.i(TAG, msg)''
   \<and> has_log_call ''Log.i(TAG, msg)''"
proof -
  let ?w = "world_of [(''Sync.kt'', ''Log.i(TAG, msg)'')]"
  have p: "file_path (LogConverter ''Sync.kt'') = ''Sync.kt''" by (simp add: LogConverter_def)
  have f: "files ?w (file_path (LogConverter ''Sync.kt'')) = Some ''Log.i(TAG, msg)''"
    by (simp add: world_of_def p)
  have a: "\<not> contains ''Timber'' ''Log.i(TAG, msg)''" by simp
  have b: "\<not> contains ''Log.d'' ''Log.i(TAG, msg)''" by simp
  have c: "\<not> contains ''Log.e'' ''Log.i(TAG, msg)''" by simp
  have i: "CHR ''i'' \<in> set ''iwv''" by simp
  from skipped_unless_Timber_Log_d_Log_e [OF f a b c]
  have r: "fst (convert ?w (LogConverter ''Sync.kt'')) = False"
    and s: "files (snd (snd (convert ?w (LogConverter ''Sync.kt'')))) = files ?w"
    and h: "\<forall>l pre post. l \<in> set ''iwv'' \<longrightarrow> has_log_call (pre @ ''Log.'' @ l # ''('' @ post)"
    by blast+
  from h i have "has_log_call ([] @ ''Log.'' @ CHR ''i'' # ''('' @ ''TAG, msg)'')" by blast
  then have "has_log_call ''Log.i(TAG, msg)''" by simp
  with r s f show ?thesis by (simp add: p)
qed

section \<open>Failures stay within one file\<close>

lemma main_loop_counts:
  "(case main_loop w ps c s of (c', s', w') \<Rightarrow> c' + s' = c + s + length ps)"
proof (induction ps arbitrary: w c s)
  case Nil
  then show ?case by simp
next
  case (Cons p ps)
  obtain ok cv w1 where r: "convert w (LogConverter p) = (ok, cv, w1)"
    by (cases "convert w (LogConverter p)") auto
  show ?case
  proof (cases ok)
    case True
    then show ?thesis
      using Cons.IH [where w = "w1\<lparr>stdout := stdout w1 @ ConvertedFile p # map ChangeLine (changes_made cv)\<rparr>"
                        and c = "c + 1" and s = s] r
      by (auto split: prod.splits)
  next
    case False
    then show ?thesis using Cons.IH [where w = w1 and c = c and s = "s + 1"] r by (auto split: prod.splits)
  qed
qed

text \<open>
  Claim C9. An exception raised while a file is read, transformed or written is caught
  by \<open>convert\<close>: the error is printed, False is returned and no file has changed. The
  loop of \<open>main\<close> counts a False as skipped and goes on with the remaining files, and
  whatever happens every file of the list is counted once.
\<close>

theorem failure_is_caught_per_file:
  "(convert_try w cv = Inl (e, cv') \<longrightarrow>
      convert w cv = (False, cv', w\<lparr>stdout := stdout w @ [ErrorProcessing (file_path cv) e]\<rparr>))
   \<and> (fst (convert w (LogConverter p)) = False \<longrightarrow>
      main_loop w (p # ps) c s = main_loop (snd (snd (convert w (LogConverter p)))) ps c (s + 1))
   \<and> (case main_loop w ps c s of (c', s', w') \<Rightarrow> c' + s' = c + s + length ps)"
proof (intro conjI impI)
  assume "convert_try w cv = Inl (e, cv')"
  then show "convert w cv = (False, cv', w\<lparr>stdout := stdout w @ [ErrorProcessing (file_path cv) e]\<rparr>)"
    by (simp add: convert_def)
next
  assume "fst (convert w (LogConverter p)) = False"
  then show "main_loop w (p # ps) c s = main_loop (snd (snd (convert w (LogConverter p)))) ps c (s + 1)"
    by (cases "convert w (LogConverter p)") auto
next
  show "case main_loop w ps c s of (c', s', w') \<Rightarrow> c' + s' = c + s + length ps"
    by (rule main_loop_counts)
qed

theorem failure_is_caught_per_file_witness:
  "convert_try (world_of [(''B.kt'', ''val b = 2'')]) (LogConverter ''A.kt'')
     = Inl (ReadError, LogConverter ''A.kt'')
   \<and> convert (world_of [(''B.kt'', ''val b = 2'')]) (LogConverter ''A.kt'')
     = (False, LogConverter ''A.kt'',
        (world_of [(''B.kt'', ''val b = 2'')])\<lparr>stdout := [ErrorProcessing ''A.kt'' ReadError]\<rparr>)
   \<and> main_loop (world_of [(''B.kt'', ''val b = 2'')]) [''A.kt'', ''B.kt''] 0 0
     = (0, 2, (world_of [(''B.kt'', ''val b = 2'')])\<lparr>stdout := [ErrorProcessing ''A.kt'' ReadError]\<rparr>)"
proof -
  let ?w = "world_of [(''B.kt'', ''val b = 2'')]"
  let ?w1 = "?w\<lparr>stdout := [ErrorProcessing ''A.kt'' ReadError]\<rparr>"
  have t: "convert_try ?w (LogConverter ''A.kt'') = Inl (ReadError, LogConverter ''A.kt'')"
    by (simp add: convert_try_def read_file_def world_of_def LogConverter_def)
  from failure_is_caught_per_file [of ?w "LogConverter ''A.kt''" ReadError "LogConverter ''A.kt''" "''A.kt''" "[''B.kt'']" 0 0] t
  have c: "convert ?w (LogConverter ''A.kt'') = (False, LogConverter ''A.kt'', ?w1)"
    and m: "fst (convert ?w (LogConverter ''A.kt'')) = False \<longrightarrow>
            main_loop ?w [''A.kt'', ''B.kt''] 0 0
              = main_loop (snd (snd (convert ?w (LogConverter ''A.kt'')))) [''B.kt''] 0 (0 + 1)"
    by (simp_all add: world_of_def LogConverter_def)
  from c m have m1: "main_loop ?w [''A.kt'', ''B.kt''] 0 0 = main_loop ?w1 [''B.kt''] 0 1" by simp
  have b: "convert ?w1 (LogConverter ''B.kt'') = (False, (LogConverter ''B.kt'')\<lparr>content := ''val b = 2''\<rparr>, ?w1)"
    by (simp add: convert_def convert_try_def read_file_def world_of_def LogConverter_def LOGGER_FIELD_def)
  have "main_loop ?w1 [''B.kt''] 0 1 = (0, 2, ?w1)"
    by (simp add: b)
  with t c m1 show ?thesis by simp
qed

section \<open>The matcher on texts of a known shape\<close>

lemma greedy_run:
  "\<forall>x\<in>set xs. P x \<Longrightarrow> greedy P ys k = Some r \<Longrightarrow> greedy P (xs @ ys) k = Some r"
  by (induction xs) auto

lemma greedy_stop: "\<not> P y \<Longrightarrow> greedy P (y # ys) k = k (y # ys)"
  by simp


lemma lit_match_append: "lit_match ic l (l @ s)"
  by (induction l) auto



lemma search_from_here:
  "match_at ic r s = Some (t, c) \<Longrightarrow>
   search_from ic r i s = Some \<lparr>m_start = i, m_text = take (length s - length t) s, m_groups = c, m_rest = t\<rparr>"
  by simp

lemma rx_Plus_run:
  "P x \<Longrightarrow> \<forall>y\<in>set xs. P y \<Longrightarrow> ys = [] \<or> \<not> P (hd ys) \<Longrightarrow> k ys c \<noteq> None
   \<Longrightarrow> rx_match (Plus P) ic (x # xs @ ys) c k = k ys c"
proof -
  assume a: "P x" "\<forall>y\<in>set xs. P y" "ys = [] \<or> \<not> P (hd ys)" "k ys c \<noteq> None"
  then obtain r where r: "k ys c = Some r" by auto
  have "greedy P ys (\<lambda>t. k t c) = Some r" using a(3) r by (cases ys) auto
  then have "greedy P (xs @ ys) (\<lambda>t. k t c) = Some r" by (rule greedy_run [OF a(2)])
  then show ?thesis using a(1) r by simp
qed

lemma rx_Star_run:
  "\<forall>y\<in>set xs. P y \<Longrightarrow> ys = [] \<or> \<not> P (hd ys) \<Longrightarrow> k ys c \<noteq> None
   \<Longrightarrow> rx_match (Star P) ic (xs @ ys) c k = k ys c"
proof -
  assume a: "\<forall>y\<in>set xs. P y" "ys = [] \<or> \<not> P (hd ys)" "k ys c \<noteq> None"
  then obtain r where r: "k ys c = Some r" by auto
  have "greedy P ys (\<lambda>t. k t c) = Some r" using a(2) r by (cases ys) auto
  then have "greedy P (xs @ ys) (\<lambda>t. k t c) = Some r" by (rule greedy_run [OF a(1)])
  then show ?thesis using r by simp
qed

lemma rx_Star_back:
  "\<forall>y\<in>set xs. P y \<Longrightarrow> k [] c = None \<Longrightarrow> k [y0] c \<noteq> None
   \<Longrightarrow> rx_match (Star P) ic (xs @ [y0]) c k = k [y0] c"
proof -
  assume a: "\<forall>y\<in>set xs. P y" "k [] c = None" "k [y0] c \<noteq> None"
  then obtain r where r: "k [y0] c = Some r" by auto
  have "greedy P [y0] (\<lambda>t. k t c) = Some r" using a(2) r by auto
  then have "greedy P (xs @ [y0]) (\<lambda>t. k t c) = Some r" by (rule greedy_run [OF a(1)])
  then show ?thesis using r by simp
qed

lemma timber_match_at:
  assumes "X \<noteq> []" and "CHR '')'' \<notin> set X" and "level_letter l" and "NL \<notin> set args"
  shows "match_at False timber_rx (''Timber.tag('' @ X @ '').'' @ l # ''('' @ args @ '')'')
           = Some ([], [(2::nat, args), (1, [l])])"
proof -
  obtain x X' where X: "X = x # X'" using assms(1) by (cases X) auto
  have px: "not_rparen x" and pX: "\<forall>y\<in>set X'. not_rparen y"
    using assms(2) X by (auto simp: not_rparen_def)
  have dots: "\<forall>y\<in>set args. dot y" using assms(4) by (auto simp: dot_def)
  have np: "\<not> not_rparen (CHR '')'')" by (simp add: not_rparen_def)
  show ?thesis
    unfolding match_at_def timber_rx_def X
    using px pX dots np assms(3)
    by (simp add: rx_Plus_run rx_Star_back del: rx_match.simps(3,4))
qed









section \<open>Rewriting error-level calls\<close>




text \<open>
  Where \<open>convert_log_call\<close> splits, the text has a comma, so the split has two parts:
  the empty-string fallback of the Form A branch is never taken.
\<close>

lemma split_once_two_parts: "d \<in> set s \<Longrightarrow> length (split_once d s) > 1"
  by (simp add: split_once_def)




lemma re_search_timber_call:
  assumes "X \<noteq> []" and "CHR '')'' \<notin> set X" and "level_letter l" and "NL \<notin> set args"
  shows "re_search timber_rx (timber_call X l args)
           = Some \<lparr>m_start = 0, m_text = timber_call X l args,
                   m_groups = [(2, args), (1, [l])], m_rest = []\<rparr>"
proof -
  have "match_at False timber_rx (timber_call X l args) = Some ([], [(2::nat, args), (1, [l])])"
    using timber_match_at [OF assms] by (simp add: timber_call_def)
  then show ?thesis
    unfolding re_search_def by (simp del: search_from.simps add: search_from_here)
qed



lemma level_e: "level_letter (CHR ''e'')" "level_map (CHR ''e'') = ''error''"
  by (simp_all add: level_letter_def level_map_def)

text \<open>
  Claim C3, as amended. For a Form A error-level call whose argument text contains no
  comma, no split happens and no empty-string literal is used: the call becomes
  \<open>logger.error("<ctx>", <argument>)\<close>, the argument being the only one after the
  context label.
\<close>

theorem timber_error_without_comma:
  assumes "X \<noteq> []" and "CHR '')'' \<notin> set X"
    and "CHR '','' \<notin> set args" and "NL \<notin> set args"
    and "\<not> should_remove_log (timber_call X (CHR ''e'') args)"
    and "extract_method_name cv n = Inr ctx"
  shows "convert_log_call cv (timber_call X (CHR ''e'') args) n
           = Inr (''logger.error('' @ [DQ] @ ctx @ [DQ] @ '', '' @ args @ '')'',
                  add_change (Converted n ''Timber'' (CHR ''e'') ''error'') cv)"
  using assms(3,5,6)
  by (simp add: convert_log_call_def re_search_timber_call [OF assms(1,2) level_e(1) assms(4)]
        group_def level_e call2_def Let_def)

theorem timber_error_without_comma_witness:
  "''TAG'' \<noteq> [] \<and> CHR '')'' \<notin> set ''TAG'' \<and> CHR '','' \<notin> set ''exc'' \<and> NL \<notin> set ''exc''
   \<and> \<not> should_remove_log ''Timber.tag(TAG).e(exc)''
   \<and> extract_method_name store_cv 3 = Inr ''save''
   \<and> convert_log_call store_cv ''Timber.tag(TAG).e(exc)'' 3
       = Inr (''logger.error('' @ [DQ] @ ''save'' @ [DQ] @ '', exc)'',
              add_change (Converted 3 ''Timber'' (CHR ''e'') ''error'') store_cv)"
proof -
  have c: "timber_call ''TAG'' (CHR ''e'') ''exc'' = ''Timber.tag(TAG).e(exc)''"
    by (simp add: timber_call_def)
  have a1: "''TAG'' \<noteq> []" and a2: "CHR '')'' \<notin> set ''TAG''" and a3: "CHR '','' \<notin> set ''exc''"
    and a4: "NL \<notin> set ''exc''" by (simp_all add: NL_def)
  have a5: "\<not> should_remove_log (timber_call ''TAG'' (CHR ''e'') ''exc'')"
    unfolding c by code_simp
  have a6: "extract_method_name store_cv 3 = Inr ''save''" by code_simp
  from timber_error_without_comma [OF a1 a2 a3 a4 a5 a6] a1 a2 a3 a4 a5 a6
  show ?thesis unfolding c by simp
qed

text \<open>
  Claim C3 as stated fails: \<open>Timber.tag(TAG).e(exc)\<close> becomes
  \<open>logger.error("save", exc)\<close>, not \<open>logger.error("save", "", exc)\<close>.
\<close>

theorem timber_error_without_comma_counterexample:
  "map_sum id fst (convert_log_call store_cv ''Timber.tag(TAG).e(exc)'' 3)
     = Inr (''logger.error('' @ [DQ] @ ''save'' @ [DQ] @ '', exc)'')
   \<and> ''logger.error('' @ [DQ] @ ''save'' @ [DQ] @ '', exc)''
     \<noteq> ''logger.error('' @ [DQ] @ ''save'' @ [DQ] @ '', '' @ [DQ, DQ] @ '', exc)''"
  by code_simp



section \<open>Resolving the context label\<close>

lemma range_down_step: "b < a \<Longrightarrow> range_down a b = a # range_down (a - 1) b"
proof -
  assume "b < a"
  then have n: "nat (a - b) = Suc (nat (a - 1 - b))" by simp
  have "[0..<Suc (nat (a - 1 - b))] = 0 # map Suc [0..<nat (a - 1 - b)]"
    by (simp add: upt_conv_Cons map_Suc_upt del: upt_Suc)
  then show ?thesis
    unfolding range_down_def n by (simp add: o_def del: upt_Suc)
qed

lemma range_down_empty: "a \<le> b \<Longrightarrow> range_down a b = []"
  by (simp add: range_down_def)

lemma py_index_in_range: "0 \<le> i \<Longrightarrow> i < int (length xs) \<Longrightarrow> py_index xs i = Inr (xs ! nat i)"
  by (simp add: py_index_def)

lemma scan_none:
  "0 \<le> b \<Longrightarrow> a < int (length ls)
   \<Longrightarrow> \<forall>i. b < i \<and> i \<le> a \<longrightarrow> re_search fun_decl_rx (ls ! nat i) = None
   \<Longrightarrow> scan_for_method ls (range_down a b) = Inr ''unknown''"
proof (induction "nat (a - b)" arbitrary: a)
  case 0
  then show ?case by (simp add: range_down_empty)
next
  case (Suc k)
  then have ab: "b < a" by simp
  have ih: "scan_for_method ls (range_down (a - 1) b) = Inr ''unknown''"
    using Suc.hyps(2) Suc.prems by (intro Suc.hyps(1)) auto
  have "py_index ls a = Inr (ls ! nat a)" using ab Suc.prems by (intro py_index_in_range) auto
  moreover have "re_search fun_decl_rx (ls ! nat a) = None" using ab Suc.prems by simp
  ultimately show ?case by (simp add: range_down_step [OF ab] ih)
qed

lemma scan_found:
  "0 \<le> b \<Longrightarrow> a < int (length ls) \<Longrightarrow> b < j \<Longrightarrow> j \<le> a
   \<Longrightarrow> re_search fun_decl_rx (ls ! nat j) = Some m
   \<Longrightarrow> \<forall>i. j < i \<and> i \<le> a \<longrightarrow> re_search fun_decl_rx (ls ! nat i) = None
   \<Longrightarrow> scan_for_method ls (range_down a b) = Inr (group m 1)"
proof (induction "nat (a - j)" arbitrary: a)
  case 0
  then have aj: "a = j" by simp
  have bj: "b < j" using 0 by simp
  have "py_index ls j = Inr (ls ! nat j)" using bj 0 aj by (intro py_index_in_range) auto
  then show ?case using 0(6) unfolding aj by (simp add: range_down_step [OF bj])
next
  case (Suc k)
  then have ja: "j < a" by simp
  then have ab: "b < a" using Suc.prems by simp
  have ih: "scan_for_method ls (range_down (a - 1) b) = Inr (group m 1)"
    using Suc.hyps(2) Suc.prems ja by (intro Suc.hyps(1)) auto
  have "py_index ls a = Inr (ls ! nat a)" using ab Suc.prems by (intro py_index_in_range) auto
  moreover have "re_search fun_decl_rx (ls ! nat a) = None" using ja Suc.prems by simp
  ultimately show ?case by (simp add: range_down_step [OF ab] ih)
qed

text \<open>
  Claim C4, as amended. For a line number within the text, \<open>extract_method_name\<close>
  scans backward starting at the call line itself, not at the line before it: with the
  lines indexed from 0, the nearest line at an index from \<open>lineNumber - 1\<close> down to
  just above \<open>max(0, lineNumber - 50)\<close> that matches a function declaration gives the
  name, and the result is "unknown" when no line at an index from
  \<open>max(0, lineNumber - 50)\<close> to \<open>lineNumber - 1\<close> matches.
\<close>

theorem method_name_scans_from_call_line:
  assumes "1 \<le> n" and "n \<le> int (length (split_on NL (content cv)))"
  shows "(\<forall>j m. max 0 (n - 50) < j \<and> j \<le> n - 1
            \<and> re_search fun_decl_rx (split_on NL (content cv) ! nat j) = Some m
            \<and> (\<forall>i. j < i \<and> i \<le> n - 1
                   \<longrightarrow> re_search fun_decl_rx (split_on NL (content cv) ! nat i) = None)
          \<longrightarrow> extract_method_name cv n = Inr (group m 1))
       \<and> ((\<forall>i. max 0 (n - 50) \<le> i \<and> i \<le> n - 1
                   \<longrightarrow> re_search fun_decl_rx (split_on NL (content cv) ! nat i) = None)
          \<longrightarrow> extract_method_name cv n = Inr ''unknown'')"
proof (intro conjI allI impI)
  fix j m
  assume h: "max 0 (n - 50) < j \<and> j \<le> n - 1
            \<and> re_search fun_decl_rx (split_on NL (content cv) ! nat j) = Some m
            \<and> (\<forall>i. j < i \<and> i \<le> n - 1
                   \<longrightarrow> re_search fun_decl_rx (split_on NL (content cv) ! nat i) = None)"
  show "extract_method_name cv n = Inr (group m 1)"
    unfolding extract_method_name_def
    using assms h by (intro scan_found [where j = j]) auto
next
  assume h: "\<forall>i. max 0 (n - 50) \<le> i \<and> i \<le> n - 1
                   \<longrightarrow> re_search fun_decl_rx (split_on NL (content cv) ! nat i) = None"
  show "extract_method_name cv n = Inr ''unknown''"
    unfolding extract_method_name_def
    using assms h by (intro scan_none) auto
qed

theorem method_name_scans_from_call_line_witness:
  "(1::int) \<le> 3 \<and> 3 \<le> int (length (split_on NL (content store_cv)))
   \<and> re_search fun_decl_rx (split_on NL (content store_cv) ! 1)
       = Some \<lparr>m_start = 2, m_text = ''fun save('', m_groups = [(1, ''save'')], m_rest = '') {''\<rparr>
   \<and> re_search fun_decl_rx (split_on NL (content store_cv) ! 2) = None
   \<and> extract_method_name store_cv 3 = Inr ''save''
   \<and> re_search fun_decl_rx (split_on NL (content (LogConverter ''Empty.kt'')) ! 0) = None
   \<and> extract_method_name (LogConverter ''Empty.kt'') 1 = Inr ''unknown''"
proof -
  let ?m = "\<lparr>m_start = 2, m_text = ''fun save('', m_groups = [(1, ''save'')], m_rest = '') {''\<rparr>"
  have L: "split_on NL (content store_cv)
             = [''class Store {'', ''  fun save() {'', ''    Timber.tag(TAG).e(exc)'', ''  }'', ''}'']"
    by code_simp
  have m1: "re_search fun_decl_rx (split_on NL (content store_cv) ! 1) = Some ?m"
    unfolding L by code_simp
  have m2: "re_search fun_decl_rx (split_on NL (content store_cv) ! 2) = None"
    unfolding L by code_simp
  have n3: "(1::int) \<le> 3" "3 \<le> int (length (split_on NL (content store_cv)))"
    unfolding L by simp_all
  have above: "\<forall>i. (1::int) < i \<and> i \<le> 3 - 1
                 \<longrightarrow> re_search fun_decl_rx (split_on NL (content store_cv) ! nat i) = None"
  proof (intro allI impI)
    fix i :: int assume "1 < i \<and> i \<le> 3 - 1"
    then have "i = 2" by simp
    then show "re_search fun_decl_rx (split_on NL (content store_cv) ! nat i) = None"
      using m2 by simp
  qed
  have g: "group ?m 1 = ''save''" by (simp add: group_def)
  have m1': "re_search fun_decl_rx (split_on NL (content store_cv) ! nat 1) = Some ?m"
    using m1 by simp
  have "\<forall>j m. max 0 (3 - 50) < j \<and> j \<le> 3 - 1
            \<and> re_search fun_decl_rx (split_on NL (content store_cv) ! nat j) = Some m
            \<and> (\<forall>i. j < i \<and> i \<le> 3 - 1
                   \<longrightarrow> re_search fun_decl_rx (split_on NL (content store_cv) ! nat i) = None)
          \<longrightarrow> extract_method_name store_cv 3 = Inr (group m 1)"
    using method_name_scans_from_call_line [OF n3] by (rule conjunct1)
  then have "max 0 (3 - 50) < (1::int) \<and> (1::int) \<le> 3 - 1
            \<and> re_search fun_decl_rx (split_on NL (content store_cv) ! nat 1) = Some ?m
            \<and> (\<forall>i. 1 < i \<and> i \<le> 3 - 1
                   \<longrightarrow> re_search fun_decl_rx (split_on NL (content store_cv) ! nat i) = None)
          \<longrightarrow> extract_method_name store_cv 3 = Inr (group ?m 1)"
    by blast
  with m1' above have r1: "extract_method_name store_cv 3 = Inr (group ?m 1)"
    by simp
  have E: "split_on NL (content (LogConverter ''Empty.kt'')) = [[]]"
    by (simp add: LogConverter_def)
  have e0: "re_search fun_decl_rx (split_on NL (content (LogConverter ''Empty.kt'')) ! 0) = None"
    unfolding E by code_simp
  have n1: "(1::int) \<le> 1" "1 \<le> int (length (split_on NL (content (LogConverter ''Empty.kt''))))"
    unfolding E by simp_all
  have none: "\<forall>i. max 0 (1 - 50) \<le> i \<and> i \<le> (1::int) - 1
                 \<longrightarrow> re_search fun_decl_rx (split_on NL (content (LogConverter ''Empty.kt'')) ! nat i) = None"
  proof (intro allI impI)
    fix i :: int assume "max 0 (1 - 50) \<le> i \<and> i \<le> 1 - 1"
    then have "i = 0" by simp
    then show "re_search fun_decl_rx (split_on NL (content (LogConverter ''Empty.kt'')) ! nat i) = None"
      using e0 by simp
  qed
  have "(\<forall>i. max 0 (1 - 50) \<le> i \<and> i \<le> (1::int) - 1
            \<longrightarrow> re_search fun_decl_rx (split_on NL (content (LogConverter ''Empty.kt'')) ! nat i) = None)
          \<longrightarrow> extract_method_name (LogConverter ''Empty.kt'') 1 = Inr ''unknown''"
    using method_name_scans_from_call_line [OF n1] by (rule conjunct2)
  with none have r2: "extract_method_name (LogConverter ''Empty.kt'') 1 = Inr ''unknown''"
    by blast
  from n3 m1 m2 r1 g e0 r2 show ?thesis by simp
qed

text \<open>
  Claim C4 as stated fails: the call on line 3 sits in the one-line function \<open>inner\<close>;
  the lines before it give \<open>outer\<close>, the code returns \<open>inner\<close>.
\<close>

theorem call_line_is_scanned_counterexample:
  "extract_method_name nested_cv 3 = Inr ''inner''
   \<and> resolveContext_claimed (content nested_cv) 3 = ''outer''"
  by code_simp

text \<open>
  The scan stops above index \<open>max(0, lineNumber - 50)\<close>: the declaration on the first
  line of this text is not found from the call on line 2.
\<close>

lemma first_line_declaration_not_found:
  "extract_method_name first_line_cv 2 = Inr ''unknown''"
  by code_simp

section \<open>Deleting noise\<close>

lemma contains_append: "starts_with needle s \<Longrightarrow> contains needle (pre @ s)"
proof (induction pre)
  case Nil
  then show ?case by (cases s) auto
next
  case (Cons a pre)
  then show ?case by simp
qed

lemma space_not_T_L: "is_space x \<Longrightarrow> x \<noteq> CHR ''T'' \<and> x \<noteq> CHR ''L''"
  by (auto simp: is_space_def code_def)

lemma call_rx_no_match_space:
  assumes "is_space x"
  shows "match_at False call_rx (x # s) = None"
proof -
  have a: "rx_match (Lit ''Timber.tag('') False (x # s) c k = None" for c and k :: "string \<Rightarrow> caps \<Rightarrow> (string \<times> caps) option"
    using space_not_T_L [OF assms] by auto
  have b: "rx_match (Lit ''Log.'') False (x # s) c k = None" for c and k :: "string \<Rightarrow> caps \<Rightarrow> (string \<times> caps) option"
    using space_not_T_L [OF assms] by auto
  show ?thesis
    unfolding match_at_def call_rx_def
    by (simp add: a b del: rx_match.simps(1) lit_match.simps)
qed

lemma call_rx_no_match_nil: "match_at False call_rx [] = None"
  by (simp add: match_at_def call_rx_def)

lemma re_sub_fn_spaces:
  "\<forall>c\<in>set ws. is_space c \<Longrightarrow>
   re_sub_fn call_rx f 0 (ws @ s) st =
     (case re_sub_fn call_rx f 0 s st of Inl e \<Rightarrow> Inl e | Inr (out, st') \<Rightarrow> Inr (ws @ out, st'))"
proof (induction ws)
  case Nil
  then show ?case by (auto split: sum.splits)
next
  case (Cons a ws)
  then show ?case by (auto simp: call_rx_no_match_space split: sum.splits)
qed

lemma re_sub_fn_only_spaces:
  "\<forall>c\<in>set ws. is_space c \<Longrightarrow> re_sub_fn call_rx f 0 ws st = Inr (ws, st)"
  using re_sub_fn_spaces [of ws f "[]" st] by (simp add: call_rx_no_match_nil)

lemma re_sub_fn_skip: "re_sub_fn r f (length a) (a @ s) st = re_sub_fn r f 0 s st"
proof (induction a)
  case Nil
  then show ?case by simp
next
  case (Cons x a)
  then show ?case by simp
qed

lemma call_rx_match_log:
  assumes "level_letter l" and "CHR '')'' \<notin> set args"
  shows "match_at False call_rx (''Log.'' @ l # ''('' @ args @ '')'' @ rest)
           = Some (rest, [(1, ''Log.'' @ l # ''('' @ args @ '')'')])"
proof -
  have p: "\<forall>y\<in>set args. not_rparen y" using assms(2) by (auto simp: not_rparen_def)
  have np: "\<not> not_rparen (CHR '')'')" by (simp add: not_rparen_def)
  have t: "take (7 + length args) (''Log.'' @ l # ''('' @ args @ '')'' @ rest)
             = ''Log.'' @ l # ''('' @ args @ '')''" by (simp add: numeral_eq_Suc)
  show ?thesis
    unfolding match_at_def call_rx_def
    using p np assms(1) t
    by (simp add: rx_Star_run [of args not_rparen "CHR '')'' # rest"] del: rx_match.simps(3,4))
qed

lemma call_rx_match_timber:
  assumes "X \<noteq> []" and "CHR '')'' \<notin> set X" and "level_letter l" and "CHR '')'' \<notin> set args"
  shows "match_at False call_rx (timber_call X l args @ rest)
           = Some (rest, [(1, timber_call X l args)])"
proof -
  obtain x X' where X: "X = x # X'" using assms(1) by (cases X) auto
  have px: "not_rparen x" and pX: "\<forall>y\<in>set X'. not_rparen y"
    using assms(2) X by (auto simp: not_rparen_def)
  have p: "\<forall>y\<in>set args. not_rparen y" using assms(4) by (auto simp: not_rparen_def)
  have np: "\<not> not_rparen (CHR '')'')" by (simp add: not_rparen_def)
  have t: "take (17 + (length X' + length args))
             (''Timber.tag('' @ (x # X') @ '').'' @ [l] @ ''('' @ args @ '')'' @ rest)
             = ''Timber.tag('' @ (x # X') @ '').'' @ [l] @ ''('' @ args @ '')''"
    by (simp add: numeral_eq_Suc)
  show ?thesis
    unfolding match_at_def call_rx_def timber_call_def X
    using px pX p np assms(3) t
    by (simp add: rx_Plus_run rx_Star_run [of args not_rparen "CHR '')'' # rest"]
             del: rx_match.simps(3,4))
qed

lemma strip_spaces: "\<forall>c\<in>set ws. is_space c \<Longrightarrow> strip ws = []"
proof -
  assume "\<forall>c\<in>set ws. is_space c"
  then have d: "dropWhile is_space ws = []" by (induction ws) auto
  show ?thesis unfolding strip_def d by simp
qed

text \<open>One call between two runs of whitespace: the substitution leaves the whitespace.\<close>

lemma re_sub_fn_single_call:
  assumes ws1: "\<forall>c\<in>set ws1. is_space c" and ws2: "\<forall>c\<in>set ws2. is_space c"
    and m: "match_at False call_rx (call @ ws2) = Some (ws2, caps)" and ne: "call \<noteq> []"
    and f: "f call st = Inr (rep, st1)"
  shows "re_sub_fn call_rx f 0 (ws1 @ call @ ws2) st = Inr (ws1 @ rep @ ws2, st1)"
proof -
  obtain c0 call' where c: "call = c0 # call'" using ne by (cases call) auto
  have len: "length (call @ ws2) - length ws2 = length call" by simp
  have sk: "re_sub_fn call_rx f (length call') (call' @ ws2) st1 = Inr (ws2, st1)"
    by (simp only: re_sub_fn_skip re_sub_fn_only_spaces [OF ws2])
  have "re_sub_fn call_rx f 0 (call @ ws2) st = Inr (rep @ ws2, st1)"
    using m f sk unfolding c by (simp add: Let_def)
  then show ?thesis by (simp add: re_sub_fn_spaces [OF ws1])
qed

lemma remove_noise_call:
  "should_remove_log m \<Longrightarrow> convert_log_call cv m n = Inr ([], add_change (Removed n) cv)"
  by (simp add: convert_log_call_def)

lemma process_lines_blank:
  assumes "has_log_call line"
    and "re_sub_fn call_rx (\<lambda>m st. convert_log_call st m n) 0 line cv = Inr (new_line, cv1)"
    and "strip new_line = []"
  shows "process_lines cv n (line # rest) = process_lines cv1 (n + 1) rest"
  using assms by (auto split: sum.splits)

lemma process_lines_blank_lines:
  "process_lines cv n ls = Inr (out, cv2)
   \<Longrightarrow> \<forall>l\<in>set out. strip l = [] \<longrightarrow> l \<in> set ls \<and> \<not> has_log_call l"
proof (induction ls arbitrary: cv n out cv2)
  case Nil
  then show ?case by simp
next
  case (Cons line ls)
  show ?case
  proof (cases "has_log_call line")
    case True
    from Cons.prems True obtain new_line cv1 where
      s: "re_sub_fn call_rx (\<lambda>m st. convert_log_call st m n) 0 line cv = Inr (new_line, cv1)"
      by (auto split: sum.splits)
    from Cons.prems True s obtain new_lines where
      r: "process_lines cv1 (n + 1) ls = Inr (new_lines, cv2)"
      and o: "out = (if strip new_line \<noteq> [] then new_line # new_lines else new_lines)"
      by (auto split: sum.splits if_splits)
    from Cons.IH [OF r] o show ?thesis by (auto split: if_splits)
  next
    case False
    from Cons.prems False obtain new_lines where
      r: "process_lines cv (n + 1) ls = Inr (new_lines, cv2)" and o: "out = line # new_lines"
      by (auto split: sum.splits)
    from Cons.IH [OF r] o False show ?thesis by auto
  qed
qed

lemma has_log_call_log:
  assumes "level_letter l"
  shows "has_log_call (ws1 @ (''Log.'' @ [l] @ ''('' @ args @ '')'') @ ws2)"
proof -
  have "match_at False log_marker_rx (''Log.'' @ l # ''('' @ (args @ '')'' @ ws2)) \<noteq> None"
    using assms by (rule log_marker_matches)
  then have "search_from False log_marker_rx 0 (ws1 @ ''Log.'' @ l # ''('' @ (args @ '')'' @ ws2)) \<noteq> None"
    by (rule search_from_finds)
  then show ?thesis by (simp add: has_log_call_def re_search_def)
qed

lemma has_log_call_timber:
  "has_log_call (ws1 @ timber_call X l args @ ws2)"
proof -
  have "starts_with ''Timber.tag'' (timber_call X l args @ ws2)"
    by (simp add: timber_call_def)
  then show ?thesis unfolding has_log_call_def using contains_append by blast
qed

lemma noise_line_dropped:
  assumes ws1: "\<forall>c\<in>set ws1. is_space c" and ws2: "\<forall>c\<in>set ws2. is_space c"
    and l: "level_letter l" and a: "CHR '')'' \<notin> set args"
    and shape: "call = ''Log.'' @ [l] @ ''('' @ args @ '')''
                \<or> (X \<noteq> [] \<and> CHR '')'' \<notin> set X \<and> call = timber_call X l args)"
    and noise: "should_remove_log call"
  shows "process_lines cv n ((ws1 @ call @ ws2) # rest)
           = process_lines (add_change (Removed n) cv) (n + 1) rest"
proof -
  have ne: "call \<noteq> []" using shape by (auto simp: timber_call_def)
  have m: "match_at False call_rx (call @ ws2) = Some (ws2, [(1, call)])"
    using shape call_rx_match_log [OF l a, of ws2] call_rx_match_timber [OF _ _ l a, of X ws2]
    by auto
  have h: "has_log_call (ws1 @ call @ ws2)"
    using shape has_log_call_log [OF l, of ws1 args ws2] has_log_call_timber [of ws1 X l args ws2]
    by auto
  have f: "convert_log_call cv call n = Inr ([], add_change (Removed n) cv)"
    by (rule remove_noise_call [OF noise])
  have s: "re_sub_fn call_rx (\<lambda>m st. convert_log_call st m n) 0 (ws1 @ call @ ws2) cv
             = Inr (ws1 @ [] @ ws2, add_change (Removed n) cv)"
    using re_sub_fn_single_call [where f = "\<lambda>m st. convert_log_call st m n" and st = cv
                                   and rep = "[]" and ?st1.0 = "add_change (Removed n) cv",
                                 OF ws1 ws2 m ne] f
    by simp
  have b: "strip (ws1 @ [] @ ws2) = []" using ws1 ws2 by (intro strip_spaces) auto
  show ?thesis by (rule process_lines_blank [OF h s b])
qed

text \<open>
  Claim C5. A matched call whose text matches a noise signature is replaced by empty
  text. A line whose text is blank after the substitution is not put into the output,
  so every blank line of the output is a line of the input that held no call. In
  particular a line that holds one noise call and otherwise only whitespace leaves
  nothing behind.
\<close>

theorem noise_calls_leave_no_line:
  "(should_remove_log m \<longrightarrow> convert_log_call cv m n = Inr ([], add_change (Removed n) cv))
   \<and> (has_log_call line
       \<and> re_sub_fn call_rx (\<lambda>m st. convert_log_call st m n) 0 line cv = Inr (new_line, cv1)
       \<and> strip new_line = []
      \<longrightarrow> process_lines cv n (line # rest) = process_lines cv1 (n + 1) rest)
   \<and> (process_lines cv n ls = Inr (out, cv2)
      \<longrightarrow> (\<forall>l\<in>set out. strip l = [] \<longrightarrow> l \<in> set ls \<and> \<not> has_log_call l))
   \<and> ((\<forall>c\<in>set ws1. is_space c) \<and> (\<forall>c\<in>set ws2. is_space c)
       \<and> level_letter l \<and> CHR '')'' \<notin> set args
       \<and> (call = ''Log.'' @ [l] @ ''('' @ args @ '')''
          \<or> (X \<noteq> [] \<and> CHR '')'' \<notin> set X \<and> call = timber_call X l args))
       \<and> should_remove_log call
      \<longrightarrow> process_lines cv n ((ws1 @ call @ ws2) # rest)
           = process_lines (add_change (Removed n) cv) (n + 1) rest)"
proof (intro conjI impI)
  assume "should_remove_log m"
  then show "convert_log_call cv m n = Inr ([], add_change (Removed n) cv)"
    by (rule remove_noise_call)
next
  assume "has_log_call line
       \<and> re_sub_fn call_rx (\<lambda>m st. convert_log_call st m n) 0 line cv = Inr (new_line, cv1)
       \<and> strip new_line = []"
  then show "process_lines cv n (line # rest) = process_lines cv1 (n + 1) rest"
    using process_lines_blank by blast
next
  assume "process_lines cv n ls = Inr (out, cv2)"
  then show "\<forall>l\<in>set out. strip l = [] \<longrightarrow> l \<in> set ls \<and> \<not> has_log_call l"
    by (rule process_lines_blank_lines)
next
  assume h: "(\<forall>c\<in>set ws1. is_space c) \<and> (\<forall>c\<in>set ws2. is_space c)
       \<and> level_letter l \<and> CHR '')'' \<notin> set args
       \<and> (call = ''Log.'' @ [l] @ ''('' @ args @ '')''
          \<or> (X \<noteq> [] \<and> CHR '')'' \<notin> set X \<and> call = timber_call X l args))
       \<and> should_remove_log call"
  show "process_lines cv n ((ws1 @ call @ ws2) # rest)
           = process_lines (add_change (Removed n) cv) (n + 1) rest"
    by (rule noise_line_dropped [where l = l and args = args and X = X]) (use h in blast)+
qed

theorem noise_calls_leave_no_line_witness:
  "should_remove_log ''Log.v(TAG, msg)''
   \<and> convert_log_call noisy_cv ''Log.v(TAG, msg)'' 2 = Inr ([], add_change (Removed 2) noisy_cv)
   \<and> process_lines noisy_cv 2 [''    Log.v(TAG, msg)''] = Inr ([], add_change (Removed 2) noisy_cv)
   \<and> process_lines noisy_cv 1 (split_on NL (content noisy_cv))
       = Inr ([''fun sync() {'', '''', ''}''], add_change (Removed 2) noisy_cv)
   \<and> \<not> has_log_call ''''"
proof -
  have noise: "should_remove_log ''Log.v(TAG, msg)''" by code_simp
  have whole: "process_lines noisy_cv 1 (split_on NL (content noisy_cv))
                 = Inr ([''fun sync() {'', '''', ''}''], add_change (Removed 2) noisy_cv)"
    by code_simp
  have ws: "\<forall>c\<in>set ''    ''. is_space c" by (simp add: is_space_def code_def)
  have lv: "level_letter (CHR ''v'')" by (simp add: level_letter_def)
  have np: "CHR '')'' \<notin> set ''TAG, msg''" by simp
  note T = noise_calls_leave_no_line
             [where m = "''Log.v(TAG, msg)''" and cv = noisy_cv and n = 2
                and ?ws1.0 = "''    ''" and ?ws2.0 = "[]" and l = "CHR ''v''" and args = "''TAG, msg''"
                and call = "''Log.v(TAG, msg)''" and rest = "[]"]
  note T3 = noise_calls_leave_no_line
             [where cv = noisy_cv and n = 1
                and ls = "split_on NL (content noisy_cv)" and out = "[''fun sync() {'', '''', ''}'']"
                and ?cv2.0 = "add_change (Removed 2) noisy_cv"]
  from T noise have c1: "convert_log_call noisy_cv ''Log.v(TAG, msg)'' 2
                           = Inr ([], add_change (Removed 2) noisy_cv)"
    by blast
  have "process_lines noisy_cv 2 ((''    '' @ ''Log.v(TAG, msg)'' @ []) # [])
          = process_lines (add_change (Removed 2) noisy_cv) (2 + 1) []"
    using T noise ws lv np by simp
  then have c2: "process_lines noisy_cv 2 [''    Log.v(TAG, msg)'']
                   = Inr ([], add_change (Removed 2) noisy_cv)"
    by simp
  have "process_lines noisy_cv 1 (split_on NL (content noisy_cv))
          = Inr ([''fun sync() {'', '''', ''}''], add_change (Removed 2) noisy_cv)
        \<longrightarrow> (\<forall>l\<in>set [''fun sync() {'', '''', ''}'']. strip l = []
               \<longrightarrow> l \<in> set (split_on NL (content noisy_cv)) \<and> \<not> has_log_call l)"
    using T3 by blast
  with whole have "strip '''' = [] \<longrightarrow> \<not> has_log_call ''''" by simp
  then have c3: "\<not> has_log_call ''''" by (simp add: strip_def)
  from noise c1 c2 whole c3 show ?thesis by blast
qed

section \<open>Occurrences of the injected texts\<close>

lemma starts_with_iff: "starts_with n s \<longleftrightarrow> (\<exists>t. s = n @ t)"
proof (induction n arbitrary: s)
  case Nil
  then show ?case by simp
next
  case (Cons a n)
  then show ?case by (cases s) auto
qed

lemma contains_iff: "contains n s \<longleftrightarrow> (\<exists>p t. s = p @ n @ t)"
proof (induction s)
  case Nil
  then show ?case by (auto simp: starts_with_iff)
next
  case (Cons x s)
  show ?case
  proof
    assume "contains n (x # s)"
    then consider "starts_with n (x # s)" | "contains n s" by (auto split: if_splits)
    then show "\<exists>p t. x # s = p @ n @ t"
    proof cases
      case 1
      then obtain t where "x # s = [] @ n @ t" by (auto simp: starts_with_iff)
      then show ?thesis by blast
    next
      case 2
      with Cons.IH obtain p t where "s = p @ n @ t" by blast
      then have "x # s = (x # p) @ n @ t" by simp
      then show ?thesis by blast
    qed
  next
    assume "\<exists>p t. x # s = p @ n @ t"
    then obtain p t where e: "x # s = p @ n @ t" by blast
    show "contains n (x # s)"
    proof (cases p)
      case Nil
      with e have "starts_with n (x # s)" by (auto simp: starts_with_iff)
      then show ?thesis by simp
    next
      case (Cons y p')
      with e have "s = p' @ n @ t" by simp
      with Cons.IH have "contains n s" by blast
      then show ?thesis by simp
    qed
  qed
qed

lemma occurrences_zero: "occurrences n s = 0 \<longleftrightarrow> \<not> contains n s"
  by (induction s) auto

lemma not_contains_parts:
  assumes "\<not> contains n (a @ b)"
  shows "\<not> contains n a" and "\<not> contains n b"
proof -
  show "\<not> contains n a"
  proof
    assume "contains n a"
    then obtain p t where "a = p @ n @ t" using contains_iff by blast
    then have "a @ b = p @ n @ (t @ b)" by simp
    then have "contains n (a @ b)" using contains_iff by blast
    with assms show False by simp
  qed
  show "\<not> contains n b"
  proof
    assume "contains n b"
    then obtain p t where "b = p @ n @ t" using contains_iff by blast
    then have "a @ b = (a @ p) @ n @ t" by simp
    then have "contains n (a @ b)" using contains_iff by blast
    with assms show False by simp
  qed
qed

lemma starts_with_newline:
  "NL \<notin> set n \<Longrightarrow> starts_with n (u @ NL # b) = starts_with n u"
proof (induction n arbitrary: u)
  case Nil
  then show ?case by simp
next
  case (Cons p ps)
  then show ?case by (cases u) auto
qed

lemma occurrences_newline:
  assumes "n \<noteq> []" and "NL \<notin> set n"
  shows "occurrences n (a @ NL # b) = occurrences n a + occurrences n b"
proof (induction a)
  case Nil
  have "\<not> starts_with n (NL # b)" using assms by (cases n) auto
  moreover have "\<not> starts_with n []" using assms by (cases n) auto
  ultimately show ?case by simp
next
  case (Cons x a)
  have "starts_with n (x # a @ NL # b) = starts_with n (x # a)"
    using starts_with_newline [OF assms(2), of "x # a" b] by simp
  with Cons show ?case by simp
qed

lemma starts_with_short: "length s < length n \<Longrightarrow> \<not> starts_with n s"
  by (auto simp: starts_with_iff)

lemma occurrences_short: "length s < length n \<Longrightarrow> occurrences n s = 0"
  by (induction s) (auto simp: starts_with_short)

lemma occurrences_self: "n \<noteq> [] \<Longrightarrow> occurrences n n = 1"
proof -
  assume "n \<noteq> []"
  then obtain x xs where n: "n = x # xs" by (cases n) auto
  have "starts_with n n" by (simp add: starts_with_iff)
  moreover have "occurrences n xs = 0" by (rule occurrences_short) (simp add: n)
  ultimately show ?thesis using n by simp
qed

lemma occurrences_skip: "n \<noteq> [] \<Longrightarrow> c \<noteq> hd n \<Longrightarrow> occurrences n (c # s) = occurrences n s"
  by (cases n) auto

lemma contains_filter_le:
  assumes "contains n s"
  shows "length (filter P n) \<le> length (filter P s)"
proof -
  from assms obtain p t where "s = p @ n @ t" using contains_iff by blast
  then show ?thesis by simp
qed

lemma search_bol_line_start:
  "search_bol r (length pre) bol s = Some pos \<Longrightarrow> (bol \<longrightarrow> pre = [] \<or> last pre = NL)
   \<Longrightarrow> \<exists>u v. s = u @ v \<and> pos = length pre + length u \<and> (pre @ u = [] \<or> last (pre @ u) = NL)"
proof (induction s arbitrary: pre bol)
  case Nil
  then show ?case by (auto split: if_splits)
next
  case (Cons x s)
  have e: "search_bol r (length pre) bol (x # s)
             = (if bol \<and> match_at False r (x # s) \<noteq> None then Some (length pre)
                else search_bol r (Suc (length pre)) (x = NL) s)"
    by (subst search_bol.simps) (auto simp del: search_bol.simps)
  show ?case
  proof (cases "bol \<and> match_at False r (x # s) \<noteq> None")
    case True
    with Cons.prems(1) have "pos = length pre" unfolding e by simp
    with True Cons.prems(2) have "x # s = [] @ (x # s) \<and> pos = length pre + length ([]::string)
        \<and> (pre @ [] = [] \<or> last (pre @ []) = NL)" by simp
    then show ?thesis by blast
  next
    case False
    with Cons.prems(1) have "search_bol r (Suc (length pre)) (x = NL) s = Some pos"
      unfolding e by (auto simp del: search_bol.simps split: if_splits)
    then have "search_bol r (length (pre @ [x])) (x = NL) s = Some pos"
      by (simp del: search_bol.simps)
    from Cons.IH [OF this] obtain u v where
      "s = u @ v" "pos = length (pre @ [x]) + length u"
      "(pre @ [x]) @ u = [] \<or> last ((pre @ [x]) @ u) = NL"
      by auto
    then have "x # s = (x # u) @ v \<and> pos = length pre + length (x # u)
        \<and> (pre @ (x # u) = [] \<or> last (pre @ (x # u)) = NL)" by simp
    then show ?thesis by blast
  qed
qed

lemma import_facts: "STRUCTURED_IMPORT \<noteq> []" "NL \<notin> set STRUCTURED_IMPORT"
  by (simp_all add: STRUCTURED_IMPORT_def NL_def)

lemma insert_import_once:
  assumes "\<not> contains STRUCTURED_IMPORT (u @ v)" and "u = [] \<or> last u = NL"
  shows "occurrences STRUCTURED_IMPORT (u @ STRUCTURED_IMPORT @ [NL] @ v) = 1"
proof -
  have z: "occurrences STRUCTURED_IMPORT u = 0" "occurrences STRUCTURED_IMPORT v = 0"
    using not_contains_parts [OF assms(1)] by (simp_all add: occurrences_zero)
  have i: "occurrences STRUCTURED_IMPORT (STRUCTURED_IMPORT @ NL # v) = 1"
    by (simp add: occurrences_newline [OF import_facts] occurrences_self [OF import_facts(1)] z)
  show ?thesis
  proof (cases "u = []")
    case True
    then show ?thesis using i by simp
  next
    case False
    with assms(2) obtain u' where u: "u = u' @ [NL]" by (metis append_butlast_last_id)
    have "\<not> contains STRUCTURED_IMPORT u'"
      using not_contains_parts(1) [of STRUCTURED_IMPORT u' "[NL] @ v"] assms(1) u by simp
    then have "occurrences STRUCTURED_IMPORT u' = 0" by (simp add: occurrences_zero)
    then have "occurrences STRUCTURED_IMPORT (u' @ NL # (STRUCTURED_IMPORT @ NL # v)) = 1"
      by (simp add: occurrences_newline [OF import_facts, of u'] i)
    then show ?thesis by (simp add: u)
  qed
qed

lemma update_imports_occurrences:
  "occurrences STRUCTURED_IMPORT (content (update_imports cv))
     \<le> max 1 (occurrences STRUCTURED_IMPORT
                 (delete_all ANDROID_LOG_IMPORT_LINE 0 (delete_all TIMBER_IMPORT_LINE 0 (content cv))))"
proof -
  define c2 where "c2 = delete_all ANDROID_LOG_IMPORT_LINE 0 (delete_all TIMBER_IMPORT_LINE 0 (content cv))"
  show ?thesis
  proof (cases "contains STRUCTURED_IMPORT c2")
    case True
    then have "content (update_imports cv) = c2"
      by (simp add: update_imports_def c2_def Let_def)
    then show ?thesis by (simp add: c2_def)
  next
    case False
    show ?thesis
    proof (cases "re_search_multiline_start import_rx c2")
      case None
      with False have "content (update_imports cv) = c2"
        by (simp add: update_imports_def c2_def Let_def)
      then show ?thesis by (simp add: c2_def)
    next
      case (Some pos)
      with False have c: "content (update_imports cv)
                            = take pos c2 @ STRUCTURED_IMPORT @ [NL] @ drop pos c2"
        by (simp add: update_imports_def c2_def Let_def)
      from Some have "search_bol import_rx (length ([]::string)) True c2 = Some pos"
        by (simp add: re_search_multiline_start_def)
      from search_bol_line_start [OF this] obtain u v where
        uv: "c2 = u @ v" "pos = length u" "u = [] \<or> last u = NL" by auto
      have "occurrences STRUCTURED_IMPORT (u @ STRUCTURED_IMPORT @ [NL] @ v) = 1"
        using False uv by (intro insert_import_once) auto
      then show ?thesis using c uv by simp
    qed
  qed
qed

lemma content_add_change: "content (add_change ch cv) = content cv"
  by (simp add: add_change_def)

lemma field_facts: "LOGGER_FIELD \<noteq> []" "NL \<notin> set LOGGER_FIELD"
  by (simp_all add: LOGGER_FIELD_def NL_def)

lemma logger_code_once:
  assumes "CHR '' '' \<notin> set tag" and "CHR '' '' \<notin> set cls"
  shows "occurrences LOGGER_FIELD
           (''    private val logger = StructuredLogger('' @ tag @ '', '' @ [DQ] @ cls @ [DQ] @ '')'') = 1"
proof -
  let ?R = "''('' @ tag @ '', '' @ [DQ] @ cls @ [DQ] @ '')''"
  have ft: "filter (\<lambda>c. c = CHR '' '') tag = []" "filter (\<lambda>c. c = CHR '' '') cls = []"
    using assms by (auto simp: filter_empty_conv)
  have a: "length (filter (\<lambda>c. c = CHR '' '') ?R) = 1" by (simp add: ft DQ_def)
  have b: "length (filter (\<lambda>c. c = CHR '' '') LOGGER_FIELD) = 4"
    by (simp add: LOGGER_FIELD_def)
  have "\<not> contains LOGGER_FIELD ?R"
  proof
    assume "contains LOGGER_FIELD ?R"
    from contains_filter_le [OF this, of "\<lambda>c. c = CHR '' ''"]
    have "(4::nat) \<le> 1" unfolding a b .
    then show False by simp
  qed
  with occurrences_zero [of LOGGER_FIELD ?R] have R0: "occurrences LOGGER_FIELD ?R = 0"
    by blast
  show ?thesis using R0 by (simp add: LOGGER_FIELD_def)
qed

lemma add_logger_instance_occurrences:
  assumes "CHR '' '' \<notin> set (feature_tag cv)" and "CHR '' '' \<notin> set (class_name cv)"
  shows "occurrences LOGGER_FIELD (content (add_logger_instance cv))
           \<le> max 1 (occurrences LOGGER_FIELD (content cv))"
proof (cases "contains LOGGER_FIELD (content cv) \<or> contains LOGGER_FIELD_TYPED (content cv)")
  case True
  then have "add_logger_instance cv = cv" by (simp add: add_logger_instance_def)
  then show ?thesis by simp
next
  case False
  show ?thesis
  proof (cases "re_search class_body_rx (content cv)")
    case None
    with False have "add_logger_instance cv = cv" by (simp add: add_logger_instance_def)
    then show ?thesis by simp
  next
    case (Some m)
    define p where "p = m_start m + length (m_text m)"
    let ?mid = "''    private val logger = StructuredLogger('' @ feature_tag cv @ '', '' @ [DQ]
                 @ class_name cv @ [DQ] @ '')''"
    have lc: "logger_code (feature_tag cv) (class_name cv) = NL # ?mid @ [NL]"
      by (simp add: logger_code_def)
    from False Some have c: "content (add_logger_instance cv)
        = take p (content cv) @ NL # ?mid @ NL # drop p (content cv)"
      by (simp add: add_logger_instance_def Let_def content_add_change lc p_def)
    have "\<not> contains LOGGER_FIELD (take p (content cv) @ drop p (content cv))"
      using False by simp
    from not_contains_parts [OF this]
    have z: "occurrences LOGGER_FIELD (take p (content cv)) = 0"
            "occurrences LOGGER_FIELD (drop p (content cv)) = 0"
      by (simp_all add: occurrences_zero)
    have "occurrences LOGGER_FIELD (take p (content cv) @ NL # (?mid @ NL # drop p (content cv))) = 1"
      unfolding occurrences_newline [OF field_facts] using z logger_code_once [OF assms]
      by simp
    then show ?thesis using c by simp
  qed
qed

section \<open>One run and the next\<close>

lemma file_path_add_change: "file_path (add_change ch cv) = file_path cv"
  by (simp add: add_change_def)

lemma file_path_convert_log_call:
  assumes "convert_log_call cv m n = Inr (t, cv1)"
  shows "file_path cv1 = file_path cv"
proof (cases "should_remove_log m")
  case True
  with assms show ?thesis by (auto simp: convert_log_call_def file_path_add_change)
next
  case noise: False
  show ?thesis
  proof (cases "extract_method_name cv n")
    case (Inl e)
    with assms noise show ?thesis
      by (cases "re_search timber_rx m"; cases "re_search log_rx m")
         (auto simp: convert_log_call_def Let_def)
  next
    case (Inr name)
    with assms noise show ?thesis
      by (cases "re_search timber_rx m"; cases "re_search log_rx m")
         (auto simp: convert_log_call_def Let_def file_path_add_change)
  qed
qed

lemma file_path_re_sub_fn:
  assumes f: "\<And>m st t st1. f m st = Inr (t, st1) \<Longrightarrow> file_path st1 = file_path st"
  shows "re_sub_fn r f k s st = Inr (t, st1) \<Longrightarrow> file_path st1 = file_path st"
proof (induction s arbitrary: k st t st1)
  case Nil
  then show ?case by (auto split: if_splits dest: f)
next
  case (Cons x xs)
  show ?case
  proof (cases k)
    case (Suc k')
    with Cons.prems have "re_sub_fn r f k' xs st = Inr (t, st1)" by simp
    then show ?thesis by (rule Cons.IH)
  next
    case 0
    show ?thesis
    proof (cases "match_at False r (x # xs)")
      case None
      with Cons.prems 0 obtain out where "re_sub_fn r f 0 xs st = Inr (out, st1)"
        by (auto split: sum.splits)
      then show ?thesis by (rule Cons.IH)
    next
      case (Some a)
      obtain t0 c0 where a: "a = (t0, c0)" by (cases a) auto
      define len where "len = length (x # xs) - length t0"
      from Cons.prems 0 Some a obtain rep st0 where
        fr: "f (take len (x # xs)) st = Inr (rep, st0)"
        by (cases "f (take len (x # xs)) st") (auto simp: Let_def len_def)
      have p1: "file_path st0 = file_path st" using fr by (rule f)
      from Cons.prems 0 Some a fr obtain out k2 where
        "re_sub_fn r f k2 xs st0 = Inr (out, st1)"
        by (cases "len = 0"; cases "re_sub_fn r f 0 xs st0"; cases "re_sub_fn r f (len - 1) xs st0")
           (auto simp: Let_def len_def)
      then have "file_path st1 = file_path st0" by (rule Cons.IH)
      with p1 show ?thesis by simp
    qed
  qed
qed

lemma file_path_process_lines:
  "process_lines cv n ls = Inr (out, cv1) \<Longrightarrow> file_path cv1 = file_path cv"
proof (induction ls arbitrary: cv n out)
  case Nil
  then show ?case by simp
next
  case (Cons line ls)
  show ?case
  proof (cases "has_log_call line")
    case True
    from Cons.prems True obtain new_line cv0 where
      s: "re_sub_fn call_rx (\<lambda>m st. convert_log_call st m n) 0 line cv = Inr (new_line, cv0)"
      by (cases "re_sub_fn call_rx (\<lambda>m st. convert_log_call st m n) 0 line cv") auto
    have p0: "file_path cv0 = file_path cv"
      using s by (rule file_path_re_sub_fn [rotated]) (rule file_path_convert_log_call)
    from Cons.prems True s obtain new_lines where
      "process_lines cv0 (n + 1) ls = Inr (new_lines, cv1)"
      by (cases "process_lines cv0 (n + 1) ls") (auto split: if_splits)
    then have "file_path cv1 = file_path cv0" by (rule Cons.IH)
    with p0 show ?thesis by simp
  next
    case False
    from Cons.prems False obtain new_lines where
      "process_lines cv (n + 1) ls = Inr (new_lines, cv1)"
      by (cases "process_lines cv (n + 1) ls") auto
    then show ?thesis by (rule Cons.IH)
  qed
qed

lemma file_path_process_content:
  "process_content cv = Inr cv1 \<Longrightarrow> file_path cv1 = file_path cv"
  by (auto simp: process_content_def split: sum.splits dest: file_path_process_lines)

lemma file_path_update_imports: "file_path (update_imports cv) = file_path cv"
  by (cases "re_search_multiline_start import_rx
               (delete_all ANDROID_LOG_IMPORT_LINE 0 (delete_all TIMBER_IMPORT_LINE 0 (content cv)))")
     (simp_all add: update_imports_def Let_def)

lemma file_path_add_logger_instance: "file_path (add_logger_instance cv) = file_path cv"
  by (cases "re_search class_body_rx (content cv)")
     (simp_all add: add_logger_instance_def Let_def file_path_add_change)

lemma convert_True:
  assumes "convert w cv = (True, cv5, w1)"
  shows "convert_try w cv = Inr (True, cv5, w1)"
  using assms by (cases "convert_try w cv") (auto simp: convert_def)

lemma convert_try_True:
  assumes "convert_try w cv = Inr (True, cv5, w1)"
  shows "\<exists>src cv3. files w (file_path cv) = Some src
           \<and> process_content (extract_class_info (cv\<lparr>content := src\<rparr>)) = Inr cv3
           \<and> cv5 = add_logger_instance (update_imports cv3)
           \<and> \<not> write_fails w (file_path cv5)
           \<and> w1 = w\<lparr>files := (files w)(file_path cv5 \<mapsto> content cv5)\<rparr>"
proof -
  from assms obtain src where r: "files w (file_path cv) = Some src"
    by (cases "files w (file_path cv)") (auto simp: convert_try_def read_file_def)
  let ?cv1 = "cv\<lparr>content := src\<rparr>"
  have rf: "read_file w cv = Inr ?cv1" using r by (simp add: read_file_def)
  from assms rf obtain cv3 where p: "process_content (extract_class_info ?cv1) = Inr cv3"
    by (cases "process_content (extract_class_info ?cv1)")
       (auto simp: convert_try_def Let_def split: if_splits)
  let ?cv5 = "add_logger_instance (update_imports cv3)"
  from assms rf p have "\<not> write_fails w (file_path ?cv5) \<and> cv5 = ?cv5
      \<and> w1 = w\<lparr>files := (files w)(file_path ?cv5 \<mapsto> content ?cv5)\<rparr>"
    by (auto simp: convert_try_def Let_def write_file_def split: if_splits)
  with r p show ?thesis by blast
qed

lemma convert_written:
  assumes "convert w cv = (True, cv5, w1)"
  shows "files w1 (file_path cv) = Some (content cv5)" and "file_path cv5 = file_path cv"
proof -
  from convert_try_True [OF convert_True [OF assms]] obtain src cv3 where
    p: "process_content (extract_class_info (cv\<lparr>content := src\<rparr>)) = Inr cv3"
    and c: "cv5 = add_logger_instance (update_imports cv3)"
    and w: "w1 = w\<lparr>files := (files w)(file_path cv5 \<mapsto> content cv5)\<rparr>"
    by blast
  have "file_path cv3 = file_path cv"
    using file_path_process_content [OF p] by (simp add: file_path_extract_class_info)
  then show fp: "file_path cv5 = file_path cv"
    by (simp add: c file_path_add_logger_instance file_path_update_imports)
  show "files w1 (file_path cv) = Some (content cv5)" by (simp add: w fp)
qed

lemma logger_code_has_field: "contains LOGGER_FIELD (a @ logger_code tag cls @ d)"
proof -
  have "a @ logger_code tag cls @ d
          = (a @ NL # ''    '') @ LOGGER_FIELD @ (''('' @ tag @ '', '' @ [DQ] @ cls @ [DQ] @ '')'' @ [NL] @ d)"
    by (simp add: logger_code_def LOGGER_FIELD_def)
  then show ?thesis unfolding contains_iff by blast
qed

lemma add_logger_instance_has_field:
  assumes "re_search class_body_rx (content cv) \<noteq> None"
    and "\<not> contains LOGGER_FIELD_TYPED (content cv)"
  shows "contains LOGGER_FIELD (content (add_logger_instance cv))"
proof (cases "contains LOGGER_FIELD (content cv)")
  case True
  then show ?thesis by (simp add: add_logger_instance_def)
next
  case False
  from assms(1) obtain m where "re_search class_body_rx (content cv) = Some m" by auto
  with False assms(2) show ?thesis
    by (simp add: add_logger_instance_def Let_def content_add_change logger_code_has_field)
qed


lemma foo_steps:
  "map_sum id (\<lambda>cv3. add_logger_instance (update_imports cv3))
     (process_content (extract_class_info ((LogConverter foo_path)\<lparr>content := foo_text\<rparr>)))
   = Inr foo_converted"
  by code_simp

lemma foo_checks:
  "\<not> contains LOGGER_FIELD foo_text" "contains ''Log.d'' foo_text"
  by code_simp+

lemma foo_first_run:
  "convert foo_world (LogConverter foo_path) = (True, foo_converted, foo_after_world)"
proof -
  let ?cv1 = "(LogConverter foo_path)\<lparr>content := foo_text\<rparr>"
  have r: "read_file foo_world (LogConverter foo_path) = Inr ?cv1"
    by (simp add: read_file_def foo_world_def world_of_def LogConverter_def)
  from foo_steps obtain cv3 where
    p: "process_content (extract_class_info ?cv1) = Inr cv3"
    and c: "add_logger_instance (update_imports cv3) = foo_converted"
    by (cases "process_content (extract_class_info ?cv1)") auto
  have fp: "file_path foo_converted = foo_path" by (simp add: foo_converted_def)
  have w: "write_file foo_world foo_converted = Inr foo_after_world"
    by (simp add: write_file_def foo_after_world_def fp foo_world_def world_of_def)
  show ?thesis
    using foo_checks by (simp add: convert_def convert_try_def r p c w Let_def)
qed

text \<open>
  Claim C2, as amended. When the first run converts the file and the text it writes
  contains the canonical logger field declaration, or none of the markers "Timber",
  "Log.d", "Log.e", a second run returns False and leaves every file as the first run
  left it. The field declaration is there whenever the text that reaches
  \<open>add_logger_instance\<close> has a class header and no \<open>private val logger:\<close>.
\<close>

theorem second_run_skips:
  "(convert w cv = (True, cv1, w1)
      \<and> (contains LOGGER_FIELD (content cv1)
          \<or> (\<not> contains ''Timber'' (content cv1) \<and> \<not> contains ''Log.d'' (content cv1)
              \<and> \<not> contains ''Log.e'' (content cv1)))
      \<and> file_path cv' = file_path cv
    \<longrightarrow> convert w1 cv' = (False, cv'\<lparr>content := content cv1\<rparr>, w1))
   \<and> (re_search class_body_rx (content cv4) \<noteq> None
      \<and> \<not> contains LOGGER_FIELD_TYPED (content cv4)
    \<longrightarrow> contains LOGGER_FIELD (content (add_logger_instance cv4)))"
proof (intro conjI impI)
  assume h: "convert w cv = (True, cv1, w1)
      \<and> (contains LOGGER_FIELD (content cv1)
          \<or> (\<not> contains ''Timber'' (content cv1) \<and> \<not> contains ''Log.d'' (content cv1)
              \<and> \<not> contains ''Log.e'' (content cv1)))
      \<and> file_path cv' = file_path cv"
  then have c: "convert w cv = (True, cv1, w1)" by simp
  have "files w1 (file_path cv') = Some (content cv1)"
    using convert_written(1) [OF c] h by simp
  then have r: "read_file w1 cv' = Inr (cv'\<lparr>content := content cv1\<rparr>)"
    by (simp add: read_file_def)
  show "convert w1 cv' = (False, cv'\<lparr>content := content cv1\<rparr>, w1)"
    using h by (auto simp: convert_def convert_try_def r)
next
  assume "re_search class_body_rx (content cv4) \<noteq> None
      \<and> \<not> contains LOGGER_FIELD_TYPED (content cv4)"
  then show "contains LOGGER_FIELD (content (add_logger_instance cv4))"
    using add_logger_instance_has_field by blast
qed

theorem second_run_skips_witness:
  "convert foo_world (LogConverter foo_path) = (True, foo_converted, foo_after_world)
   \<and> contains LOGGER_FIELD (content foo_converted)
   \<and> convert foo_after_world (LogConverter foo_path)
       = (False, (LogConverter foo_path)\<lparr>content := content foo_converted\<rparr>, foo_after_world)
   \<and> re_search class_body_rx (content store_cv) \<noteq> None
   \<and> \<not> contains LOGGER_FIELD_TYPED (content store_cv)
   \<and> contains LOGGER_FIELD (content (add_logger_instance store_cv))"
proof -
  have f: "contains LOGGER_FIELD (content foo_converted)" by code_simp
  have s1: "re_search class_body_rx (content store_cv) \<noteq> None" by code_simp
  have s2: "\<not> contains LOGGER_FIELD_TYPED (content store_cv)" by code_simp
  note T = second_run_skips [where w = foo_world and cv = "LogConverter foo_path"
             and ?cv1.0 = foo_converted and ?w1.0 = foo_after_world
             and cv' = "LogConverter foo_path" and ?cv4.0 = store_cv]
  from T foo_first_run f
  have a: "convert foo_after_world (LogConverter foo_path)
       = (False, (LogConverter foo_path)\<lparr>content := content foo_converted\<rparr>, foo_after_world)"
    by blast
  from T s1 s2 have b: "contains LOGGER_FIELD (content (add_logger_instance store_cv))" by blast
  from foo_first_run f a s1 s2 b show ?thesis by blast
qed

text \<open>
  Claim C2 as stated fails: this file has no class, so no field declaration is injected,
  and its call stays as it is; the second run converts again and returns True.
\<close>

theorem second_run_skips_counterexample:
  "fst (convert sync_world (LogConverter ''Sync.kt'')) = True
   \<and> fst (convert (snd (snd (convert sync_world (LogConverter ''Sync.kt'')))) (LogConverter ''Sync.kt''))
       = True"
  by code_simp


section \<open>Injection of the import and the field\<close>

text \<open>
  Claim C7, as amended. Each injection step leaves at most one occurrence of its
  canonical text unless the text it receives already has more, and then it adds none:
  the import line is inserted once, and only when absent after the legacy imports are
  removed; the field declaration is inserted once, and only when absent. The text a
  converting run writes is the result of these two steps.
\<close>

theorem injection_adds_at_most_one:
  "occurrences STRUCTURED_IMPORT (content (update_imports cv))
     \<le> max 1 (occurrences STRUCTURED_IMPORT
                 (delete_all ANDROID_LOG_IMPORT_LINE 0 (delete_all TIMBER_IMPORT_LINE 0 (content cv))))
   \<and> (CHR '' '' \<notin> set (feature_tag cv) \<and> CHR '' '' \<notin> set (class_name cv)
      \<longrightarrow> occurrences LOGGER_FIELD (content (add_logger_instance cv))
            \<le> max 1 (occurrences LOGGER_FIELD (content cv)))
   \<and> (convert w cv0 = (True, cv5, w1)
      \<longrightarrow> (\<exists>cv3. cv5 = add_logger_instance (update_imports cv3))
          \<and> files w1 (file_path cv0) = Some (content cv5))"
proof (intro conjI impI)
  show "occurrences STRUCTURED_IMPORT (content (update_imports cv))
     \<le> max 1 (occurrences STRUCTURED_IMPORT
                 (delete_all ANDROID_LOG_IMPORT_LINE 0 (delete_all TIMBER_IMPORT_LINE 0 (content cv))))"
    by (rule update_imports_occurrences)
next
  assume "CHR '' '' \<notin> set (feature_tag cv) \<and> CHR '' '' \<notin> set (class_name cv)"
  then show "occurrences LOGGER_FIELD (content (add_logger_instance cv))
            \<le> max 1 (occurrences LOGGER_FIELD (content cv))"
    using add_logger_instance_occurrences by blast
next
  assume c: "convert w cv0 = (True, cv5, w1)"
  from convert_try_True [OF convert_True [OF c]]
  show "\<exists>cv3. cv5 = add_logger_instance (update_imports cv3)" by blast
next
  assume c: "convert w cv0 = (True, cv5, w1)"
  then show "files w1 (file_path cv0) = Some (content cv5)" by (rule convert_written(1))
qed

theorem injection_adds_at_most_one_witness:
  "convert foo_world (LogConverter foo_path) = (True, foo_converted, foo_after_world)
   \<and> files foo_after_world (file_path (LogConverter foo_path)) = Some (content foo_converted)
   \<and> CHR '' '' \<notin> set (feature_tag foo_converted) \<and> CHR '' '' \<notin> set (class_name foo_converted)
   \<and> occurrences LOGGER_FIELD (content foo_converted) = 1
   \<and> occurrences STRUCTURED_IMPORT (content foo_converted) = 1
   \<and> occurrences LOGGER_FIELD (content (add_logger_instance foo_converted)) \<le> 1"
proof -
  have n: "CHR '' '' \<notin> set (feature_tag foo_converted)" "CHR '' '' \<notin> set (class_name foo_converted)"
    by (simp_all add: foo_converted_def)
  have o1: "occurrences LOGGER_FIELD (content foo_converted) = 1" by code_simp
  have o2: "occurrences STRUCTURED_IMPORT (content foo_converted) = 1" by code_simp
  note T = injection_adds_at_most_one [where cv = foo_converted and w = foo_world
             and ?cv0.0 = "LogConverter foo_path" and ?cv5.0 = foo_converted
             and ?w1.0 = foo_after_world]
  from T n have "occurrences LOGGER_FIELD (content (add_logger_instance foo_converted))
                   \<le> max 1 (occurrences LOGGER_FIELD (content foo_converted))"
    by blast
  then have a: "occurrences LOGGER_FIELD (content (add_logger_instance foo_converted)) \<le> 1"
    unfolding o1 by simp
  from T foo_first_run
  have b: "files foo_after_world (file_path (LogConverter foo_path)) = Some (content foo_converted)"
    by blast
  from foo_first_run b n o1 o2 a show ?thesis by blast
qed

text \<open>
  Claim C7 as stated fails: a file that comes with the canonical import line twice is
  converted and still has it twice.
\<close>

theorem injection_adds_at_most_one_counterexample:
  "fst (convert dup_world (LogConverter ''Dup.kt'')) = True
   \<and> occurrences STRUCTURED_IMPORT
        (the (files (snd (snd (convert dup_world (LogConverter ''Dup.kt'')))) ''Dup.kt'')) = 2"
  by code_simp

end
